theory Spec2Isabelle
  imports Main "HOL-Library.Multiset"
begin

section \<open>Data model (types.ts)\<close>

text \<open>
  JavaScript strings are modelled as \<open>string\<close>; the characters of the model are the
  code units below 256, so that every character outside ASCII is one that the
  regular expression \<^verbatim>\<open>/[^a-z0-9]/g\<close> removes. An optional field that is absent
  (\<^verbatim>\<open>undefined\<close>) is \<open>None\<close>.
\<close>

datatype lead_status = New | Contacted | Interested | Closed | Rejected | Outdated

datatype phone_type = Mobile | Landline | Unknown

record businessInfo =
  lead_id :: string
  lead_name :: string
  phone :: string
  whatsappUrl :: string
  instagram :: "string option"
  facebook :: "string option"
  email :: "string option"
  website :: "string option"
  status :: lead_status
  neighborhood :: string
  ptype :: phone_type
  lead_notes :: "string option"
  lastSeenAt :: "string option"
  campaignId :: "string option"

record campaign =
  campaign_id :: string
  niche :: string
  city :: string
  createdAt :: string
  lastSyncAt :: string

record groundingSource =
  title :: string
  uri :: string

record searchResult =
  businesses :: "businessInfo list"
  sources :: "groundingSource list"

section \<open>Strings\<close>

definition isUpper :: "char \<Rightarrow> bool" where
  "isUpper c = (65 \<le> (of_char c :: nat) \<and> (of_char c :: nat) \<le> 90)"

definition isLower :: "char \<Rightarrow> bool" where
  "isLower c = (97 \<le> (of_char c :: nat) \<and> (of_char c :: nat) \<le> 122)"

definition isDigit :: "char \<Rightarrow> bool" where
  "isDigit c = (48 \<le> (of_char c :: nat) \<and> (of_char c :: nat) \<le> 57)"

definition isSpace :: "char \<Rightarrow> bool" where
  "isSpace c = ((of_char c :: nat) \<in> {9, 10, 11, 12, 13, 32, 160})"

definition lowerChar :: "char \<Rightarrow> char" where
  "lowerChar c = (if isUpper c then char_of ((of_char c :: nat) + 32) else c)"

definition upperChar :: "char \<Rightarrow> char" where
  "upperChar c = (if isLower c then char_of ((of_char c :: nat) - 32) else c)"

definition toLowerCase :: "string \<Rightarrow> string" where
  "toLowerCase s = map lowerChar s"

definition toUpperCase :: "string \<Rightarrow> string" where
  "toUpperCase s = map upperChar s"

definition trim :: "string \<Rightarrow> string" where
  "trim s = rev (dropWhile isSpace (rev (dropWhile isSpace s)))"

text \<open>\<^verbatim>\<open>s.replace(/[^a-z0-9]/g, '')\<close> and \<^verbatim>\<open>s.replace(/\D/g, '')\<close>.\<close>

definition stripNonAlnum :: "string \<Rightarrow> string" where
  "stripNonAlnum s = filter (\<lambda>c. isLower c \<or> isDigit c) s"

definition stripNonDigits :: "string \<Rightarrow> string" where
  "stripNonDigits s = filter isDigit s"

text \<open>\<^verbatim>\<open>const normalize = (text) => (text || '').toLowerCase().replace(/[^a-z0-9]/g, '').trim()\<close>\<close>

definition normalize :: "string \<Rightarrow> string" where
  "normalize text = trim (stripNonAlnum (toLowerCase text))"

text \<open>\<^verbatim>\<open>s.includes(sub)\<close>\<close>

fun includes_str :: "string \<Rightarrow> string \<Rightarrow> bool" where
  "includes_str [] sub = (sub = [])"
| "includes_str (c # cs) sub = (take (length sub) (c # cs) = sub \<or> includes_str cs sub)"

text \<open>
  The template literal \<^verbatim>\<open>`${x}`\<close> of an optional string: an absent value prints
  as \<^verbatim>\<open>undefined\<close>. A property access \<^verbatim>\<open>obj[x]\<close> converts its key the same way.
\<close>

definition toStr :: "string option \<Rightarrow> string" where
  "toStr x = (case x of None \<Rightarrow> ''undefined'' | Some s \<Rightarrow> s)"

text \<open>createNormalizedId of the search service, in its three-part form.\<close>

definition createNormalizedId :: "string \<Rightarrow> string \<Rightarrow> string \<Rightarrow> string" where
  "createNormalizedId nm ph nb =
     (let cleanName = take 15 (stripNonAlnum (toLowerCase nm));
          digits = stripNonDigits ph;
          cleanPhone = drop (length digits - 8) digits;
          cleanNeighborhood = take 10 (stripNonAlnum (toLowerCase nb))
      in cleanName @ ''_'' @ cleanNeighborhood @ ''_'' @ cleanPhone)"

text \<open>
  The record that \<^verbatim>\<open>searchBusinesses\<close> builds for a block with a name, a phone of
  digits and no Instagram or website line.
\<close>

definition newBusiness :: "string \<Rightarrow> string \<Rightarrow> string \<Rightarrow> businessInfo" where
  "newBusiness nm rawPhone nb =
     (let isMobile = (length rawPhone = 11
                      \<and> (rawPhone ! 2 = CHR ''9'' \<or> rawPhone ! 2 = CHR ''8''))
      in \<lparr>lead_id = createNormalizedId nm rawPhone nb, lead_name = nm, phone = rawPhone,
          whatsappUrl = ''https://wa.me/''
             @ (if take 2 rawPhone = ''55'' then rawPhone else ''55'' @ rawPhone),
          instagram = None, facebook = None, email = None, website = None, status = New,
          neighborhood = nb, ptype = (if isMobile then Mobile else Landline),
          lead_notes = None, lastSeenAt = None, campaignId = None\<rparr>)"

section \<open>The JavaScript Map\<close>

text \<open>
  A \<^verbatim>\<open>Map\<close> keeps its keys in insertion order; \<^verbatim>\<open>set\<close> on a key that is present
  replaces the value where the key stands, and on a new key appends the entry.
\<close>

type_synonym ('k, 'v) jsmap = "('k \<times> 'v) list"

fun mapSet :: "('k, 'v) jsmap \<Rightarrow> 'k \<Rightarrow> 'v \<Rightarrow> ('k, 'v) jsmap" where
  "mapSet [] k v = [(k, v)]"
| "mapSet ((k', v') # m) k v = (if k' = k then (k, v) # m else (k', v') # mapSet m k v)"

definition mapHas :: "('k, 'v) jsmap \<Rightarrow> 'k \<Rightarrow> bool" where
  "mapHas m k = (k \<in> set (map fst m))"

definition mapGet :: "('k, 'v) jsmap \<Rightarrow> 'k \<Rightarrow> 'v option" where
  "mapGet m k = map_of m k"

definition mapValues :: "('k, 'v) jsmap \<Rightarrow> 'v list" where
  "mapValues m = map snd m"

text \<open>\<^verbatim>\<open>new Map(entries)\<close> and \<^verbatim>\<open>xs.forEach(x => m.set(key(x), x))\<close>\<close>

definition setAll :: "('a \<Rightarrow> 'k) \<Rightarrow> ('k, 'a) jsmap \<Rightarrow> 'a list \<Rightarrow> ('k, 'a) jsmap" where
  "setAll key m xs = foldl (\<lambda>acc x. mapSet acc (key x) x) m xs"

section \<open>Start-up reconciliation (init)\<close>

definition leadKey :: "businessInfo \<Rightarrow> string" where
  "leadKey l = lead_id l @ ''_'' @ toStr (campaignId l)"

definition campaignKey :: "campaign \<Rightarrow> string" where
  "campaignKey c = normalize (niche c)"

text \<open>
  The state of the loop \<^verbatim>\<open>rawCampaigns.forEach(c => ...)\<close> that collapses the
  campaigns of one normalized niche. \<^verbatim>\<open>leadRemapping\<close> is a plain object used
  as a dictionary from campaign id to campaign id: an assignment \<^verbatim>\<open>obj[k] = v\<close> is
  \<open>mapSet\<close> and a read \<^verbatim>\<open>obj[k]\<close> is \<open>mapGet\<close>. The test \<^verbatim>\<open>nicheMap.has(norm)\<close>
  and the read \<^verbatim>\<open>nicheMap.get(norm)!\<close> are the one \<open>case\<close> on \<open>mapGet\<close>.
  The dictionary agrees with the plain object on every key that is not the name of a
  property all objects inherit (\<open>inheritedNames\<close> below): for such a name the object
  would give the inherited value on a read and drop an assignment to \<^verbatim>\<open>__proto__\<close>.
  The only campaign ids the application makes are \<^verbatim>\<open>Date.now().toString()\<close>, that is
  non-empty strings of decimal digits (\<open>dateNowId\<close>), and a lead gets its
  \<^verbatim>\<open>campaignId\<close> from a campaign; what is stated about the remap is stated for such
  ids.
\<close>

definition dateNowId :: "string \<Rightarrow> bool" where
  "dateNowId s = (s \<noteq> [] \<and> list_all isDigit s)"

definition inheritedNames :: "string list" where
  "inheritedNames = [''constructor'', ''__proto__'', ''hasOwnProperty'', ''isPrototypeOf'',
     ''propertyIsEnumerable'', ''toLocaleString'', ''toString'', ''valueOf'',
     ''__defineGetter__'', ''__defineSetter__'', ''__lookupGetter__'', ''__lookupSetter__'']"

record collapse_state =
  nicheMap :: "(string, campaign) jsmap"
  campaignsToRemove :: "string list"
  leadRemapping :: "(string, string) jsmap"

definition collapseStep :: "collapse_state \<Rightarrow> campaign \<Rightarrow> collapse_state" where
  "collapseStep st c =
     (let norm = normalize (niche c) in
      case mapGet (nicheMap st) norm of
        Some original \<Rightarrow>
          st\<lparr>campaignsToRemove := campaignsToRemove st @ [campaign_id c],
             leadRemapping := mapSet (leadRemapping st) (campaign_id c) (campaign_id original)\<rparr>
      | None \<Rightarrow> st\<lparr>nicheMap := mapSet (nicheMap st) norm c\<rparr>)"

definition collapse :: "campaign list \<Rightarrow> collapse_state" where
  "collapse cs =
     foldl collapseStep \<lparr>nicheMap = [], campaignsToRemove = [], leadRemapping = []\<rparr> cs"

text \<open>
  \<^verbatim>\<open>({ ...l, campaignId: leadRemapping[l.campaignId] || l.campaignId })\<close>: the
  looked-up id is taken when it is truthy, that is a non-empty string.
\<close>

definition remapLead :: "(string, string) jsmap \<Rightarrow> businessInfo \<Rightarrow> businessInfo" where
  "remapLead remap l =
     l\<lparr>campaignId :=
         (case mapGet remap (toStr (campaignId l)) of
            Some c \<Rightarrow> (if c \<noteq> [] then Some c else campaignId l)
          | None \<Rightarrow> campaignId l)\<rparr>"

datatype cloud_status = Online | Sincronizando | Offline

text \<open>
  What \<^verbatim>\<open>init\<close> publishes (\<^verbatim>\<open>setCampaigns\<close>, \<^verbatim>\<open>setLeads\<close>, \<^verbatim>\<open>setCloudStatus\<close>) and
  what it sends to the remote store: the campaign ids passed to
  \<^verbatim>\<open>deleteCampaignFromCloud\<close> and the lead list passed to \<^verbatim>\<open>saveLeadsToCloud\<close>.
\<close>

record init_result =
  campaigns :: "campaign list"
  leads :: "businessInfo list"
  cloudStatus :: cloud_status
  cloudDeletes :: "string list"
  cloudSaved :: "businessInfo list option"

text \<open>
  Steps 1 and 2, each behind its guard \<^verbatim>\<open>if (cData)\<close>, \<^verbatim>\<open>if (lData)\<close>: a query
  that fails without throwing gives \<^verbatim>\<open>data: null\<close>, here \<open>None\<close>.
\<close>

definition unionCampaigns :: "campaign list \<Rightarrow> campaign list option \<Rightarrow> campaign list" where
  "unionCampaigns rawCampaigns cData =
     (case cData of
        None \<Rightarrow> rawCampaigns
      | Some cs \<Rightarrow> mapValues (setAll campaign_id (setAll campaign_id [] rawCampaigns) cs))"

definition unionLeads :: "businessInfo list \<Rightarrow> businessInfo list option \<Rightarrow> businessInfo list" where
  "unionLeads rawLeads lData =
     (case lData of
        None \<Rightarrow> rawLeads
      | Some ls \<Rightarrow> mapValues (setAll leadKey (setAll leadKey [] rawLeads) ls))"

text \<open>The body of the \<^verbatim>\<open>try\<close> block once both queries have returned.\<close>

definition mergeLoaded ::
  "campaign list \<Rightarrow> businessInfo list \<Rightarrow> campaign list option \<Rightarrow> businessInfo list option
     \<Rightarrow> init_result" where
  "mergeLoaded localCampaigns localLeads cData lData =
     (let rawCampaigns = unionCampaigns localCampaigns cData;
          rawLeads = unionLeads localLeads lData;
          st = collapse rawCampaigns
      in if length (campaignsToRemove st) > 0
         then
           (let rawCampaigns' = mapValues (nicheMap st);
                rawLeads' = map (remapLead (leadRemapping st)) rawLeads
            in \<lparr>campaigns = rawCampaigns',
                leads = mapValues (setAll leadKey [] rawLeads'),
                cloudStatus = Online,
                cloudDeletes = campaignsToRemove st,
                cloudSaved = Some rawLeads'\<rparr>)
         else
           \<lparr>campaigns = rawCampaigns,
            leads = mapValues (setAll leadKey [] rawLeads),
            cloudStatus = Online,
            cloudDeletes = [],
            cloudSaved = None\<rparr>)"

text \<open>
  \<^verbatim>\<open>init\<close>: \<open>remote\<close> is \<open>None\<close> when one of the two queries throws, and the
  \<^verbatim>\<open>catch\<close> block then publishes the local replica as it was read.
\<close>

definition init ::
  "campaign list \<Rightarrow> businessInfo list \<Rightarrow> (campaign list option \<times> businessInfo list option) option
     \<Rightarrow> init_result" where
  "init localCampaigns localLeads remote =
     (case remote of
        Some (cData, lData) \<Rightarrow> mergeLoaded localCampaigns localLeads cData lData
      | None \<Rightarrow>
          \<lparr>campaigns = localCampaigns, leads = localLeads, cloudStatus = Offline,
           cloudDeletes = [], cloudSaved = None\<rparr>)"

section \<open>Mining (handleStartMining)\<close>

text \<open>
  The local variables of a mining run, with the calls it makes to the outside: the
  neighbourhoods passed to \<^verbatim>\<open>searchBusinesses\<close> (\<open>searched\<close>), the batches passed to
  \<^verbatim>\<open>saveLeadsToCloud\<close> (\<open>cloudLeadSaves\<close>), and the values last given to the setters
  \<^verbatim>\<open>setLeads\<close>, \<^verbatim>\<open>setMiningLog\<close> and \<^verbatim>\<open>setErrorMessage\<close>. \<open>batchToSave\<close> is
  declared afresh for every neighbourhood. The progress display
  (\<^verbatim>\<open>setMiningProgress\<close>) and the pause of two seconds before each search are left
  out.
\<close>

record mining_log =
  log_new :: nat
  log_skipped :: nat
  log_mobile :: "nat option"
  log_landline :: "nat option"

record mining =
  currentLeadsState :: "businessInfo list"
  batchToSave :: "businessInfo list"
  totalNew :: nat
  totalSkipped :: nat
  totalMobile :: nat
  totalLandline :: nat
  allSources :: "groundingSource list"
  processedBairros :: "string list"
  searched :: "string list"
  cloudLeadSaves :: "businessInfo list list"
  leadsSet :: "businessInfo list"
  miningLogSet :: "mining_log option"
  errorMessageSet :: "string option"

text \<open>
  \<^verbatim>\<open>currentLeadsState.some(l => (l.id === biz.id && l.campaignId === targetCampaignId)
      || (bizPhone !== '' && normalize(l.phone) === bizPhone))\<close>
\<close>

definition leadExists :: "businessInfo list \<Rightarrow> string \<Rightarrow> businessInfo \<Rightarrow> bool" where
  "leadExists cur targetCampaignId biz =
     (let bizPhone = normalize (phone biz) in
      list_ex (\<lambda>l. (lead_id l = lead_id biz \<and> campaignId l = Some targetCampaignId)
                   \<or> (bizPhone \<noteq> [] \<and> normalize (phone l) = bizPhone)) cur)"

text \<open>
  The body of \<^verbatim>\<open>result.businesses.forEach(biz => ...)\<close>; \<open>now\<close> is what
  \<^verbatim>\<open>new Date().toISOString()\<close> returns while this candidate is handled.
\<close>

definition foldBiz :: "string \<Rightarrow> string \<Rightarrow> mining \<Rightarrow> businessInfo \<Rightarrow> mining" where
  "foldBiz targetCampaignId now st biz =
     (if \<not> leadExists (currentLeadsState st) targetCampaignId biz
      then
        (let leadData = biz\<lparr>lastSeenAt := Some now, campaignId := Some targetCampaignId\<rparr> in
         st\<lparr>currentLeadsState := currentLeadsState st @ [leadData],
            batchToSave := batchToSave st @ [leadData],
            totalNew := totalNew st + 1,
            totalMobile := (if ptype biz = Mobile then totalMobile st + 1 else totalMobile st),
            totalLandline := (if ptype biz = Mobile then totalLandline st else totalLandline st + 1)\<rparr>)
      else st\<lparr>totalSkipped := totalSkipped st + 1\<rparr>)"

text \<open>The \<^verbatim>\<open>forEach\<close> over one batch; \<open>clock k\<close> is the time read for candidate \<open>k\<close>.\<close>

fun foldBatch :: "string \<Rightarrow> (nat \<Rightarrow> string) \<Rightarrow> nat \<Rightarrow> businessInfo list \<Rightarrow> mining \<Rightarrow> mining" where
  "foldBatch targetCampaignId clock k [] st = st"
| "foldBatch targetCampaignId clock k (biz # rest) st =
     foldBatch targetCampaignId clock (Suc k) rest (foldBiz targetCampaignId (clock k) st biz)"

text \<open>The three messages of the \<^verbatim>\<open>catch\<close> block, without their diacritics.\<close>

definition quotaMessage :: string where
  "quotaMessage = ''Cota diaria do Google atingida. Mineramos ate onde foi possivel. Tente novamente em 1 hora para pegar o restante dos bairros.''"

definition credentialMessage :: string where
  "credentialMessage = ''Erro: API Key nao configurada. Va na aba Configuracoes e insira sua chave do Google Gemini.''"

definition unexpectedMessage :: string where
  "unexpectedMessage = ''Ocorreu um erro inesperado. Verifique sua conexao e sua chave de API.''"

text \<open>
  The loop \<^verbatim>\<open>for (let i = 0; i < selectedNeighborhoods.length; i++)\<close>. Each selected
  neighbourhood comes with what \<^verbatim>\<open>searchBusinesses\<close> does when called for it: it
  returns a result (\<open>Inr\<close>) or throws an error with the given message (\<open>Inl\<close>;
  \<^verbatim>\<open>err.message || ""\<close>). A \<^verbatim>\<open>break\<close> ends the recursion. \<open>clock i k\<close> is the time
  read for candidate \<open>k\<close> of neighbourhood \<open>i\<close>.
\<close>

fun miningLoop ::
  "string \<Rightarrow> (nat \<Rightarrow> nat \<Rightarrow> string) \<Rightarrow> nat \<Rightarrow> (string \<times> (string + searchResult)) list
     \<Rightarrow> mining \<Rightarrow> mining" where
  "miningLoop targetCampaignId clock i [] st = st"
| "miningLoop targetCampaignId clock i ((barrio, outcome) # rest) st =
     (let st1 = st\<lparr>searched := searched st @ [barrio]\<rparr> in
      case outcome of
        Inr result \<Rightarrow>
          (let st2 = st1\<lparr>batchToSave := [], allSources := allSources st1 @ sources result\<rparr>;
               st3 = foldBatch targetCampaignId (clock i) 0 (businesses result) st2;
               st4 = st3\<lparr>miningLogSet :=
                       Some \<lparr>log_new = totalNew st3, log_skipped = totalSkipped st3,
                             log_mobile = Some (totalMobile st3),
                             log_landline = Some (totalLandline st3)\<rparr>\<rparr>;
               st5 = (if length (batchToSave st4) > 0
                      then st4\<lparr>cloudLeadSaves := cloudLeadSaves st4 @ [batchToSave st4],
                              leadsSet := currentLeadsState st4\<rparr>
                      else st4)
           in miningLoop targetCampaignId clock (Suc i) rest
                (st5\<lparr>processedBairros := processedBairros st5 @ [barrio]\<rparr>))
      | Inl msg \<Rightarrow>
          (if includes_str msg ''429''
           then st1\<lparr>errorMessageSet := Some quotaMessage\<rparr>
           else if includes_str msg ''API_KEY_MISSING''
           then st1\<lparr>errorMessageSet := Some credentialMessage\<rparr>
           else miningLoop targetCampaignId clock (Suc i) rest
                  (st1\<lparr>errorMessageSet := Some unexpectedMessage\<rparr>)))"

text \<open>An outcome on which the loop stops: an error whose message carries one of the two signals.\<close>

definition halts :: "string + searchResult \<Rightarrow> bool" where
  "halts outcome =
     (case outcome of
        Inl msg \<Rightarrow> includes_str msg ''429'' \<or> includes_str msg ''API_KEY_MISSING''
      | Inr result \<Rightarrow> False)"

text \<open>
  The component state that \<^verbatim>\<open>handleStartMining\<close> reads. The handler is a closure
  made by one render: \<^verbatim>\<open>campaigns\<close>, \<^verbatim>\<open>leads\<close>, \<^verbatim>\<open>niche\<close>, \<^verbatim>\<open>city\<close> and
  \<^verbatim>\<open>errorMessage\<close> are constants of that render, and the setters called during the
  run do not change them.
\<close>

record app =
  campaignsSt :: "campaign list"
  leadsSt :: "businessInfo list"
  nicheSt :: string
  citySt :: string
  errorMessage :: "string option"

text \<open>
  What the clock gives during one run: \<^verbatim>\<open>Date.now().toString()\<close> for the id of a new
  campaign, \<^verbatim>\<open>new Date().toISOString()\<close> for \<^verbatim>\<open>createdAt\<close> and for \<^verbatim>\<open>lastSyncAt\<close>,
  and the readings of the loop.
\<close>

record mining_env =
  dateNow :: string
  isoCreated :: string
  isoSync :: string
  leadClock :: "nat \<Rightarrow> nat \<Rightarrow> string"

text \<open>
  What a run leaves: the campaign list given to \<^verbatim>\<open>setCampaigns\<close>, the campaign given
  to \<^verbatim>\<open>saveCampaignToCloud\<close>, the variables of the loop, the flags set in
  \<^verbatim>\<open>finally\<close>, and whether the timer that calls \<^verbatim>\<open>setActiveTab('leads')\<close> after
  2500 ms was started.
\<close>

record mining_outcome =
  campaignsSet :: "campaign list"
  cloudCampaignSave :: campaign
  run :: mining
  lastSourcesSet :: "groundingSource list"
  isMiningSet :: bool
  cloudStatusSet :: cloud_status
  navigatesToLeads :: bool

text \<open>The variables as the loop finds them, after \<^verbatim>\<open>setErrorMessage(null)\<close> and
  \<^verbatim>\<open>setMiningLog({ new: 0, skipped: 0 })\<close>.\<close>

definition miningStart :: "businessInfo list \<Rightarrow> mining" where
  "miningStart ls =
     \<lparr>currentLeadsState = ls, batchToSave = [], totalNew = 0, totalSkipped = 0,
      totalMobile = 0, totalLandline = 0, allSources = [], processedBairros = [],
      searched = [], cloudLeadSaves = [], leadsSet = ls,
      miningLogSet = Some \<lparr>log_new = 0, log_skipped = 0, log_mobile = None,
                            log_landline = None\<rparr>,
      errorMessageSet = None\<rparr>"

text \<open>
  \<^verbatim>\<open>handleStartMining\<close>. \<open>None\<close> is the early \<^verbatim>\<open>return\<close>. The test in \<^verbatim>\<open>finally\<close>,
  \<^verbatim>\<open>if (!errorMessage && totalNew > 0)\<close>, reads the \<^verbatim>\<open>errorMessage\<close> of the render
  that made the handler; a string is falsy when it is empty.
\<close>

definition handleStartMining ::
  "mining_env \<Rightarrow> app \<Rightarrow> (string \<times> (string + searchResult)) list \<Rightarrow> mining_outcome option" where
  "handleStartMining env a selectedNeighborhoods =
     (if nicheSt a = [] \<or> citySt a = [] \<or> length selectedNeighborhoods = 0 then None
      else
        (let existingCampaign =
               find (\<lambda>c. normalize (niche c) = normalize (nicheSt a)) (campaignsSt a);
             newCampaign = \<lparr>campaign_id = dateNow env, niche = toUpperCase (nicheSt a),
                             city = citySt a, createdAt = isoCreated env,
                             lastSyncAt = isoSync env\<rparr>;
             targetCampaignId =
               (case existingCampaign of None \<Rightarrow> campaign_id newCampaign
                | Some e \<Rightarrow> campaign_id e);
             saved =
               (case existingCampaign of None \<Rightarrow> newCampaign
                | Some e \<Rightarrow> e\<lparr>lastSyncAt := isoSync env\<rparr>);
             campaigns' =
               (case existingCampaign of None \<Rightarrow> newCampaign # campaignsSt a
                | Some e \<Rightarrow>
                    map (\<lambda>c. if campaign_id c = campaign_id e then saved else c) (campaignsSt a));
             st = miningLoop targetCampaignId (leadClock env) 0 selectedNeighborhoods
                    (miningStart (leadsSt a))
         in Some \<lparr>campaignsSet = campaigns', cloudCampaignSave = saved, run = st,
                   lastSourcesSet = allSources st, isMiningSet = False, cloudStatusSet = Online,
                   navigatesToLeads =
                     ((errorMessage a = None \<or> errorMessage a = Some []) \<and> totalNew st > 0)\<rparr>))"

section \<open>Duplicate cleanup by phone (handleCleanDuplicates)\<close>

text \<open>
  The leads in scope: those of the campaigns that have the niche of the active
  campaign, or all leads when no campaign is active. An id that is null or empty is
  falsy, and so is a niche that is empty or not found.
\<close>

definition targetLeads ::
  "campaign list \<Rightarrow> businessInfo list \<Rightarrow> string option \<Rightarrow> businessInfo list" where
  "targetLeads cs ls activeCampaignId =
     (case activeCampaignId of
        None \<Rightarrow> ls
      | Some active \<Rightarrow>
          if active = [] then ls
          else filter (\<lambda>l.
                 case find (\<lambda>c. campaign_id c = active) cs of
                   None \<Rightarrow> False
                 | Some found \<Rightarrow>
                     niche found \<noteq> []
                     \<and> (case campaignId l of
                          None \<Rightarrow> False
                        | Some cid \<Rightarrow>
                            cid \<in> set (map campaign_id
                                          (filter (\<lambda>c. niche c = niche found) cs)))) ls)"

text \<open>
  \<^verbatim>\<open>new Date(l.lastSeenAt || 0).getTime()\<close>. \<open>parse\<close> stands for the time value, in
  milliseconds, that \<^verbatim>\<open>Date\<close> gives to a date string; a missing or empty
  \<^verbatim>\<open>lastSeenAt\<close> is the epoch. Strings that \<^verbatim>\<open>Date\<close> cannot read give NaN, under
  which the order made by \<^verbatim>\<open>sort\<close> is left open by the language: the model is
  about lead lists whose dates can be read.
\<close>

definition seenMs :: "(string \<Rightarrow> int) \<Rightarrow> businessInfo \<Rightarrow> int" where
  "seenMs parse l =
     (case lastSeenAt l of None \<Rightarrow> 0 | Some s \<Rightarrow> if s = [] then 0 else parse s)"

text \<open>
  \<^verbatim>\<open>[...targetLeads].sort((a, b) => time(b) - time(a))\<close>: \<^verbatim>\<open>sort\<close> is stable, and
  the comparator puts \<^verbatim>\<open>a\<close> first when its time is the greater, which is the stable
  ascending sort on the negated time.
\<close>

definition sortedLeads :: "(string \<Rightarrow> int) \<Rightarrow> businessInfo list \<Rightarrow> businessInfo list" where
  "sortedLeads parse ls = sort_key (\<lambda>l. - seenMs parse l) ls"

record dedupe_state =
  phoneMap :: "(string, businessInfo) jsmap"
  dupesFound :: "businessInfo list"
  keptLeads :: "businessInfo list"

text \<open>The body of \<^verbatim>\<open>sortedLeads.forEach(l => ...)\<close>; the empty string is falsy.\<close>

definition scanStep :: "dedupe_state \<Rightarrow> businessInfo \<Rightarrow> dedupe_state" where
  "scanStep st l =
     (let ph = normalize (phone l) in
      if ph \<noteq> [] \<and> mapHas (phoneMap st) ph
      then st\<lparr>dupesFound := dupesFound st @ [l]\<rparr>
      else
        (let st' = (if ph \<noteq> [] then st\<lparr>phoneMap := mapSet (phoneMap st) ph l\<rparr> else st)
         in st'\<lparr>keptLeads := keptLeads st' @ [l]\<rparr>))"

definition scanLeads :: "businessInfo list \<Rightarrow> dedupe_state" where
  "scanLeads ls = foldl scanStep \<lparr>phoneMap = [], dupesFound = [], keptLeads = []\<rparr> ls"

text \<open>The detection part of \<^verbatim>\<open>handleCleanDuplicates\<close>, up to the test on \<^verbatim>\<open>dupesFound\<close>.\<close>

definition handleCleanDuplicates ::
  "(string \<Rightarrow> int) \<Rightarrow> campaign list \<Rightarrow> businessInfo list \<Rightarrow> string option \<Rightarrow> dedupe_state" where
  "handleCleanDuplicates parse cs ls activeCampaignId =
     scanLeads (sortedLeads parse (targetLeads cs ls activeCampaignId))"

text \<open>
  The time value of \<^verbatim>\<open>Date\<close> for the two ISO forms the application meets:
  \<^verbatim>\<open>YYYY-MM-DD\<close>, read as midnight UTC, and the form \<^verbatim>\<open>YYYY-MM-DDTHH:mm:ss.sssZ\<close>
  that \<^verbatim>\<open>toISOString\<close> writes. The day count is that of the proleptic Gregorian
  calendar, from 1970-01-01.
\<close>

definition digitsValue :: "string \<Rightarrow> int" where
  "digitsValue s = foldl (\<lambda>n c. 10 * n + (int (of_char c) - 48)) 0 s"

definition daysFromCivil :: "int \<Rightarrow> int \<Rightarrow> int \<Rightarrow> int" where
  "daysFromCivil y m d =
     (let y' = (if m \<le> 2 then y - 1 else y);
          era = y' div 400;
          yoe = y' - era * 400;
          mp = (if m > 2 then m - 3 else m + 9);
          doy = (153 * mp + 2) div 5 + d - 1;
          doe = yoe * 365 + yoe div 4 - yoe div 100 + doy
      in era * 146097 + doe - 719468)"

definition isoDateMs :: "string \<Rightarrow> int" where
  "isoDateMs s =
     daysFromCivil (digitsValue (take 4 s)) (digitsValue (take 2 (drop 5 s)))
         (digitsValue (take 2 (drop 8 s))) * 86400000
       + digitsValue (take 2 (drop 11 s)) * 3600000
       + digitsValue (take 2 (drop 14 s)) * 60000
       + digitsValue (take 2 (drop 17 s)) * 1000
       + digitsValue (take 3 (drop 20 s))"

text \<open>
  The rule of detection in words: position \<open>i\<close> of a scanned list holds a duplicate
  when the normalized phone of its lead is non-empty and is the normalized phone of a
  lead that stands earlier in the list.
\<close>

definition alreadySeen :: "businessInfo list \<Rightarrow> nat \<Rightarrow> bool" where
  "alreadySeen xs i =
     (normalize (phone (xs ! i)) \<noteq> []
      \<and> normalize (phone (xs ! i)) \<in> (\<lambda>l. normalize (phone l)) ` set (take i xs))"

section \<open>Lead updates from the detail view\<close>

text \<open>
  What a handler of the detail view leaves: the lead list given to \<^verbatim>\<open>setLeads\<close>, the
  lead given to \<^verbatim>\<open>setSelectedLead\<close> if it is called, and the lead passed to
  \<^verbatim>\<open>saveLeadsToCloud\<close> if it is called (\<open>Some None\<close> is a call with \<^verbatim>\<open>undefined\<close>,
  when \<^verbatim>\<open>find\<close> finds nothing).
\<close>

record lead_update =
  leadsAfter :: "businessInfo list"
  selectedLeadSet :: "businessInfo option"
  cloudLeadSave :: "businessInfo option option"

text \<open>
  The status buttons: \<^verbatim>\<open>setLeads(prev => prev.map(l => l.id === selectedLead.id ?
  updatedLead : l))\<close> with \<^verbatim>\<open>updatedLead = { ...selectedLead, status: s.id }\<close>.
\<close>

definition statusClick :: "businessInfo \<Rightarrow> lead_status \<Rightarrow> businessInfo list \<Rightarrow> lead_update" where
  "statusClick selectedLead s prev =
     (let updatedLead = selectedLead\<lparr>status := s\<rparr> in
      \<lparr>leadsAfter = map (\<lambda>l. if lead_id l = lead_id selectedLead then updatedLead else l) prev,
       selectedLeadSet = Some updatedLead,
       cloudLeadSave = Some (Some updatedLead)\<rparr>)"

text \<open>
  The WhatsApp link: \<^verbatim>\<open>leads.map(l => l.id === selectedLead.id ? { ...l, status:
  'contacted' } : l)\<close>, then \<^verbatim>\<open>saveLeadsToCloud([up.find(x => x.id ===
  selectedLead.id)!])\<close>.
\<close>

definition whatsappClick :: "businessInfo \<Rightarrow> businessInfo list \<Rightarrow> lead_update" where
  "whatsappClick selectedLead ls =
     (let up = map (\<lambda>l. if lead_id l = lead_id selectedLead then l\<lparr>status := Contacted\<rparr> else l) ls
      in \<lparr>leadsAfter = up, selectedLeadSet = None,
          cloudLeadSave = Some (find (\<lambda>x. lead_id x = lead_id selectedLead) up)\<rparr>)"

text \<open>
  \<^verbatim>\<open>handleGeneratePitch\<close>, after the note that announces the generation: \<open>outcome\<close> is
  the pitch that the chosen provider returns (\<open>Inr\<close>) or the message of the error it
  throws (\<open>Inl\<close>). The two notes of the \<^verbatim>\<open>catch\<close> block are without diacritics.
\<close>

definition handleGeneratePitch ::
  "businessInfo \<Rightarrow> string + string \<Rightarrow> businessInfo list \<Rightarrow> lead_update" where
  "handleGeneratePitch lead outcome prev =
     (case outcome of
        Inr pitch \<Rightarrow>
          (let updatedLead = lead\<lparr>lead_notes := Some pitch\<rparr> in
           \<lparr>leadsAfter = map (\<lambda>l. if lead_id l = lead_id lead then updatedLead else l) prev,
            selectedLeadSet = Some updatedLead,
            cloudLeadSave = Some (Some updatedLead)\<rparr>)
      | Inl msg \<Rightarrow>
          \<lparr>leadsAfter = prev,
           selectedLeadSet =
             Some (lead\<lparr>lead_notes :=
                     Some (if includes_str msg ''GROQ_KEY_MISSING''
                           then ''Erro: Chave Groq nao configurada.''
                           else ''Limite atingido. Tente em breve.'')\<rparr>),
           cloudLeadSave = None\<rparr>)"

text \<open>A lead with a given id, campaign and status.\<close>

definition statusLead :: "string \<Rightarrow> string \<Rightarrow> lead_status \<Rightarrow> businessInfo" where
  "statusLead i c s = \<lparr>lead_id = i, lead_name = ''N'', phone = [], whatsappUrl = [],
     instagram = None, facebook = None, email = None, website = None, status = s,
     neighborhood = [], ptype = Unknown, lead_notes = None, lastSeenAt = None,
     campaignId = Some c\<rparr>"

text \<open>A lead with a given id, phone and time of last discovery.\<close>

definition seenLead :: "string \<Rightarrow> string \<Rightarrow> string \<Rightarrow> businessInfo" where
  "seenLead i ph seen = \<lparr>lead_id = i, lead_name = ''N'', phone = ph, whatsappUrl = [],
     instagram = None, facebook = None, email = None, website = None, status = New,
     neighborhood = [], ptype = Unknown, lead_notes = None, lastSeenAt = Some seen,
     campaignId = Some ''1''\<rparr>"

section \<open>Example records\<close>

text \<open>A lead and a campaign with given identifying fields, for the concrete scenarios.\<close>

definition mkLead :: "string \<Rightarrow> string option \<Rightarrow> businessInfo" where
  "mkLead i c = \<lparr>lead_id = i, lead_name = ''N'', phone = [], whatsappUrl = [], instagram = None,
     facebook = None, email = None, website = None, status = New, neighborhood = [],
     ptype = Unknown, lead_notes = None, lastSeenAt = None, campaignId = c\<rparr>"

definition mkCampaign :: "string \<Rightarrow> string \<Rightarrow> campaign" where
  "mkCampaign i n = \<lparr>campaign_id = i, niche = n, city = [], createdAt = [], lastSyncAt = []\<rparr>"

text \<open>A mined business as it is stored: in a campaign, with a workflow status.\<close>

definition storedLead :: "string \<Rightarrow> lead_status \<Rightarrow> businessInfo" where
  "storedLead c s =
     (newBusiness ''Pizza Um'' ''11999998888'' ''Centro'')\<lparr>status := s, campaignId := Some c\<rparr>"

text \<open>A clock that stands still, and a form filled in for pizzerias in Uberlandia.\<close>

definition stillEnv :: mining_env where
  "stillEnv = \<lparr>dateNow = ''1700000000000'', isoCreated = ''2024-01-02T00:00:00.000Z'',
     isoSync = ''2024-01-02T00:00:00.000Z'',
     leadClock = (\<lambda>i k. ''2024-01-02T00:00:00.000Z'')\<rparr>"

definition pizzaForm :: "string option \<Rightarrow> app" where
  "pizzaForm err = \<lparr>campaignsSt = [], leadsSt = [], nicheSt = ''pizzaria'',
     citySt = ''Uberlandia'', errorMessage = err\<rparr>"

section \<open>Properties of the Map model\<close>

lemma mapSet_keys:
  "map fst (mapSet m k v) = (if k \<in> fst ` set m then map fst m else map fst m @ [k])"
  by (induction m k v rule: mapSet.induct) (auto simp: image_iff)

lemma mapSet_absent: "k \<notin> fst ` set m \<Longrightarrow> mapSet m k v = m @ [(k, v)]"
  by (induction m k v rule: mapSet.induct) (auto simp: image_iff)

lemma mapSet_set: "set (mapSet m k v) \<subseteq> insert (k, v) (set m)"
  by (induction m k v rule: mapSet.induct) auto

lemma mapSet_distinct: "distinct (map fst m) \<Longrightarrow> distinct (map fst (mapSet m k v))"
  by (simp add: mapSet_keys)

lemma mapSet_keyed:
  "\<forall>p\<in>set m. fst p = key (snd p) \<Longrightarrow> \<forall>p\<in>set (mapSet m (key x) x). fst p = key (snd p)"
  using mapSet_set[of m "key x" x] by auto

lemma setAll_Cons: "setAll key m (x # xs) = setAll key (mapSet m (key x) x) xs"
  by (simp add: setAll_def)

lemma setAll_distinct: "distinct (map fst m) \<Longrightarrow> distinct (map fst (setAll key m xs))"
  by (induction xs arbitrary: m) (simp_all add: setAll_def mapSet_distinct)

lemma setAll_keyed:
  "\<forall>p\<in>set m. fst p = key (snd p) \<Longrightarrow> \<forall>p\<in>set (setAll key m xs). fst p = key (snd p)"
proof (induction xs arbitrary: m)
  case Nil
  then show ?case by (simp add: setAll_def)
next
  case (Cons x xs)
  show ?case unfolding setAll_Cons by (rule Cons.IH) (rule mapSet_keyed[OF Cons.prems])
qed


lemma keyed_values_distinct:
  "distinct (map fst m) \<Longrightarrow> \<forall>p\<in>set m. fst p = key (snd p) \<Longrightarrow> distinct (map key (mapValues m))"
proof -
  assume a: "distinct (map fst m)" and b: "\<forall>p\<in>set m. fst p = key (snd p)"
  have "map key (mapValues m) = map fst m" using b by (simp add: mapValues_def)
  with a show ?thesis by simp
qed

lemma setAll_values_distinct: "distinct (map key (mapValues (setAll key [] xs)))"
proof (rule keyed_values_distinct)
  show "distinct (map fst (setAll key [] xs))" by (rule setAll_distinct) simp
  show "\<forall>p\<in>set (setAll key [] xs). fst p = key (snd p)" by (rule setAll_keyed) simp
qed


lemma find_key_None: "k \<notin> f ` set xs \<Longrightarrow> find (\<lambda>x. f x = k) xs = None"
  by (induction xs) auto

section \<open>Properties of the campaign collapse\<close>

lemma find_append:
  "find P (xs @ ys) = (case find P xs of None \<Rightarrow> find P ys | Some x \<Rightarrow> Some x)"
  by (induction xs) auto

lemma collapse_snoc: "collapse (xs @ [c]) = collapseStep (collapse xs) c"
  by (simp add: collapse_def)

lemma collapse_Nil: "collapse [] = \<lparr>nicheMap = [], campaignsToRemove = [], leadRemapping = []\<rparr>"
  by (simp add: collapse_def)

lemma collapseStep_hit:
  "mapGet (nicheMap st) (campaignKey c) = Some orig \<Longrightarrow>
   collapseStep st c =
     st\<lparr>campaignsToRemove := campaignsToRemove st @ [campaign_id c],
        leadRemapping := mapSet (leadRemapping st) (campaign_id c) (campaign_id orig)\<rparr>"
  by (simp add: collapseStep_def Let_def campaignKey_def)

lemma collapseStep_miss:
  "mapGet (nicheMap st) (campaignKey c) = None \<Longrightarrow>
   collapseStep st c = st\<lparr>nicheMap := nicheMap st @ [(campaignKey c, c)]\<rparr>"
proof -
  assume n: "mapGet (nicheMap st) (campaignKey c) = None"
  then have "campaignKey c \<notin> fst ` set (nicheMap st)"
    by (simp add: mapGet_def map_of_eq_None_iff)
  then have "mapSet (nicheMap st) (campaignKey c) c = nicheMap st @ [(campaignKey c, c)]"
    by (rule mapSet_absent)
  with n show ?thesis by (simp add: collapseStep_def Let_def campaignKey_def)
qed

lemma mapGet_Some: "mapGet m k = Some v \<Longrightarrow> (k, v) \<in> set m"
  by (simp add: mapGet_def map_of_SomeD)

lemma mapGet_None: "mapGet m k = None \<longleftrightarrow> k \<notin> fst ` set m"
  by (simp add: mapGet_def map_of_eq_None_iff)

text \<open>The niche map holds, per normalized niche, the first campaign of the list.\<close>

lemma collapse_nicheMap:
  "(\<forall>p\<in>set (nicheMap (collapse xs)). fst p = campaignKey (snd p))
   \<and> distinct (map fst (nicheMap (collapse xs)))
   \<and> fst ` set (nicheMap (collapse xs)) = campaignKey ` set xs
   \<and> (\<forall>p\<in>set (nicheMap (collapse xs)). find (\<lambda>x. campaignKey x = fst p) xs = Some (snd p))"
proof (induction xs rule: rev_induct)
  case Nil
  show ?case by (simp add: collapse_Nil)
next
  case (snoc c xs)
  let ?st = "collapse xs"
  let ?m = "nicheMap ?st"
  from snoc.IH have k: "\<forall>p\<in>set ?m. fst p = campaignKey (snd p)"
    and d: "distinct (map fst ?m)"
    and ks: "fst ` set ?m = campaignKey ` set xs"
    and f: "\<forall>p\<in>set ?m. find (\<lambda>x. campaignKey x = fst p) xs = Some (snd p)"
    by blast+
  have old: "\<forall>p\<in>set ?m. find (\<lambda>x. campaignKey x = fst p) (xs @ [c]) = Some (snd p)"
    using f by (simp add: find_append)
  show ?case
  proof (cases "mapGet ?m (campaignKey c)")
    case None
    then have notin: "campaignKey c \<notin> fst ` set ?m" by (simp add: mapGet_None)
    then have "campaignKey c \<notin> campaignKey ` set xs" unfolding ks .
    then have fnone: "find (\<lambda>x. campaignKey x = campaignKey c) xs = None"
      by (rule find_key_None)
    have m': "nicheMap (collapse (xs @ [c])) = ?m @ [(campaignKey c, c)]"
      by (simp add: collapse_snoc collapseStep_miss[OF None])
    have new: "find (\<lambda>x. campaignKey x = campaignKey c) (xs @ [c]) = Some c"
      using fnone by (simp add: find_append)
    have "\<forall>p\<in>set (?m @ [(campaignKey c, c)]). fst p = campaignKey (snd p)"
      using k by simp
    moreover have "distinct (map fst (?m @ [(campaignKey c, c)]))"
      using d notin by simp
    moreover have "fst ` set (?m @ [(campaignKey c, c)]) = campaignKey ` set (xs @ [c])"
      using ks by simp
    moreover have "\<forall>p\<in>set (?m @ [(campaignKey c, c)]).
        find (\<lambda>x. campaignKey x = fst p) (xs @ [c]) = Some (snd p)"
      using old new by simp
    ultimately show ?thesis unfolding m' by blast
  next
    case (Some orig)
    then have "(campaignKey c, orig) \<in> set ?m" by (rule mapGet_Some)
    then have isin: "campaignKey c \<in> fst ` set ?m" by force
    have m': "nicheMap (collapse (xs @ [c])) = ?m"
      by (simp add: collapse_snoc collapseStep_hit[OF Some])
    have "fst ` set ?m = campaignKey ` set (xs @ [c])"
      using ks isin by auto
    then show ?thesis unfolding m' using k d old by blast
  qed
qed

lemma mapSet_dom: "fst ` set (mapSet m k v) = insert k (fst ` set m)"
  by (induction m k v rule: mapSet.induct) auto






lemma collapse_no_removal:
  "campaignsToRemove (collapse xs) = [] \<Longrightarrow>
   mapValues (nicheMap (collapse xs)) = xs \<and> leadRemapping (collapse xs) = []"
proof (induction xs rule: rev_induct)
  case Nil
  show ?case by (simp add: collapse_Nil mapValues_def)
next
  case (snoc c xs)
  show ?case
  proof (cases "mapGet (nicheMap (collapse xs)) (campaignKey c)")
    case None
    show ?thesis using snoc
      by (simp add: collapse_snoc collapseStep_miss[OF None] mapValues_def)
  next
    case (Some orig)
    show ?thesis using snoc.prems
      by (simp add: collapse_snoc collapseStep_hit[OF Some])
  qed
qed




lemma unionCampaigns_distinct:
  "distinct (map campaign_id (unionCampaigns rawCampaigns (Some cs)))"
  unfolding unionCampaigns_def option.case
proof (rule keyed_values_distinct)
  show "distinct (map fst (setAll campaign_id (setAll campaign_id [] rawCampaigns) cs))"
    by (intro setAll_distinct) simp
  show "\<forall>p\<in>set (setAll campaign_id (setAll campaign_id [] rawCampaigns) cs).
          fst p = campaign_id (snd p)"
    by (intro setAll_keyed) simp
qed

lemma init_campaigns:
  "campaigns (init lc ll (Some (cData, lData))) = mapValues (nicheMap (collapse (unionCampaigns lc cData)))"
  using collapse_no_removal[of "unionCampaigns lc cData"]
  by (simp add: init_def mergeLoaded_def Let_def)

lemma init_leads:
  "leads (init lc ll (Some (cData, lData))) =
     mapValues (setAll leadKey []
       (map (remapLead (leadRemapping (collapse (unionCampaigns lc cData)))) (unionLeads ll lData)))"
proof (cases "campaignsToRemove (collapse (unionCampaigns lc cData)) = []")
  case True
  then have "leadRemapping (collapse (unionCampaigns lc cData)) = []"
    using collapse_no_removal by blast
  moreover have "map (remapLead []) xs = xs" for xs
    by (induction xs) (simp_all add: remapLead_def mapGet_def)
  ultimately show ?thesis using True by (simp add: init_def mergeLoaded_def Let_def)
next
  case False
  then show ?thesis by (simp add: init_def mergeLoaded_def Let_def)
qed


lemma distinct_map_comp: "distinct (map (g \<circ> h) xs) \<Longrightarrow> distinct (map h xs)"
  by (induction xs) auto


text \<open>
  The key \<^verbatim>\<open>id_campaignId\<close> determines the id and the printed campaign id when no
  printed campaign id contains the separator.
\<close>

lemma leadKey_injective:
  assumes "CHR ''_'' \<notin> set (toStr (campaignId a))"
    and "CHR ''_'' \<notin> set (toStr (campaignId b))"
    and "leadKey a = leadKey b"
  shows "lead_id a = lead_id b \<and> toStr (campaignId a) = toStr (campaignId b)"
proof -
  let ?P = "\<lambda>c. c \<noteq> CHR ''_''"
  have tw: "takeWhile ?P (rev c @ CHR ''_'' # rev i) = rev c" if "CHR ''_'' \<notin> set c" for c i
  proof -
    have "takeWhile ?P (rev c @ CHR ''_'' # rev i) = rev c @ takeWhile ?P (CHR ''_'' # rev i)"
      using that by (intro takeWhile_append2) auto
    then show ?thesis by simp
  qed
  from assms(3) have "rev (lead_id a @ ''_'' @ toStr (campaignId a))
      = rev (lead_id b @ ''_'' @ toStr (campaignId b))"
    by (simp only: leadKey_def)
  then have e: "rev (toStr (campaignId a)) @ CHR ''_'' # rev (lead_id a)
      = rev (toStr (campaignId b)) @ CHR ''_'' # rev (lead_id b)"
    by simp
  have "rev (toStr (campaignId a)) = rev (toStr (campaignId b))"
    using tw[OF assms(1), of "lead_id a"] tw[OF assms(2), of "lead_id b"] e by simp
  then have c: "toStr (campaignId a) = toStr (campaignId b)" by simp
  with e show ?thesis by simp
qed

text \<open>
  The ids the application makes, and the key \<^verbatim>\<open>undefined\<close> of a lead without
  campaign, are keys on which the dictionary is the plain object.
\<close>

lemma dateNowId_own: "dateNowId k \<Longrightarrow> k \<notin> set inheritedNames"
  by (auto simp: dateNowId_def inheritedNames_def isDigit_def)

lemma undefined_own: "''undefined'' \<notin> set inheritedNames"
  by (simp add: inheritedNames_def)

text \<open>
  An id made by \<open>createNormalizedId\<close> has exactly three fields, none of which holds the
  separator, so the key of a lead with such an id determines the id.
\<close>

lemma split_at_separator:
  "CHR ''_'' \<notin> set x \<Longrightarrow> CHR ''_'' \<notin> set x' \<Longrightarrow> x @ CHR ''_'' # r = x' @ CHR ''_'' # r'
   \<Longrightarrow> x = x' \<and> r = r'"
proof (induction x arbitrary: x')
  case Nil
  then show ?case by (cases x') auto
next
  case (Cons c x)
  then show ?case by (cases x') auto
qed

lemma stripNonAlnum_no_separator: "CHR ''_'' \<notin> set (stripNonAlnum s)"
  by (auto simp: stripNonAlnum_def isLower_def isDigit_def)

lemma stripNonDigits_no_separator: "CHR ''_'' \<notin> set (stripNonDigits s)"
  by (auto simp: stripNonDigits_def isDigit_def)

lemma derived_fields:
  "\<exists>n h p. createNormalizedId nm ph nb = n @ CHR ''_'' # h @ CHR ''_'' # p
     \<and> CHR ''_'' \<notin> set n \<and> CHR ''_'' \<notin> set h \<and> CHR ''_'' \<notin> set p"
proof -
  let ?n = "take 15 (stripNonAlnum (toLowerCase nm))"
  let ?h = "take 10 (stripNonAlnum (toLowerCase nb))"
  let ?p = "drop (length (stripNonDigits ph) - 8) (stripNonDigits ph)"
  have "createNormalizedId nm ph nb = ?n @ CHR ''_'' # ?h @ CHR ''_'' # ?p"
    by (simp add: createNormalizedId_def Let_def)
  moreover have "CHR ''_'' \<notin> set ?n" using stripNonAlnum_no_separator in_set_takeD by fast
  moreover have "CHR ''_'' \<notin> set ?h" using stripNonAlnum_no_separator in_set_takeD by fast
  moreover have "CHR ''_'' \<notin> set ?p" using stripNonDigits_no_separator in_set_dropD by fast
  ultimately show ?thesis by blast
qed

lemma derived_key_injective:
  assumes a: "lead_id a = createNormalizedId nm ph nb"
    and b: "lead_id b = createNormalizedId nm' ph' nb'"
    and k: "leadKey a = leadKey b"
  shows "lead_id a = lead_id b \<and> toStr (campaignId a) = toStr (campaignId b)"
proof -
  obtain n h p where ia: "lead_id a = n @ CHR ''_'' # h @ CHR ''_'' # p"
    and n: "CHR ''_'' \<notin> set n" and h: "CHR ''_'' \<notin> set h" and p: "CHR ''_'' \<notin> set p"
    using derived_fields[of nm ph nb] a by auto
  obtain n' h' p' where ib: "lead_id b = n' @ CHR ''_'' # h' @ CHR ''_'' # p'"
    and n': "CHR ''_'' \<notin> set n'" and h': "CHR ''_'' \<notin> set h'" and p': "CHR ''_'' \<notin> set p'"
    using derived_fields[of nm' ph' nb'] b by auto
  from k have "n @ CHR ''_'' # (h @ CHR ''_'' # p @ CHR ''_'' # toStr (campaignId a))
      = n' @ CHR ''_'' # (h' @ CHR ''_'' # p' @ CHR ''_'' # toStr (campaignId b))"
    by (simp add: leadKey_def ia ib)
  from split_at_separator[OF n n' this]
  have nn: "n = n'" and r1: "h @ CHR ''_'' # (p @ CHR ''_'' # toStr (campaignId a))
      = h' @ CHR ''_'' # (p' @ CHR ''_'' # toStr (campaignId b))" by simp_all
  from split_at_separator[OF h h' r1]
  have hh: "h = h'" and r2: "p @ CHR ''_'' # toStr (campaignId a)
      = p' @ CHR ''_'' # toStr (campaignId b)" by simp_all
  from split_at_separator[OF p p' r2]
  have "p = p'" and "toStr (campaignId a) = toStr (campaignId b)" by simp_all
  with nn hh ia ib show ?thesis by simp
qed

lemma same_key_later_wins:
  "leadKey a = leadKey b \<Longrightarrow> leads (init [] [a, b] (Some (None, None))) = [b]"
  by (simp add: init_leads unionCampaigns_def unionLeads_def collapse_Nil remapLead_def
        mapGet_def setAll_def mapValues_def)

lemma same_key_remote_wins:
  "leadKey a = leadKey b \<Longrightarrow> leads (init [] [a] (Some (None, Some [b]))) = [b]"
  by (simp add: init_leads unionCampaigns_def unionLeads_def collapse_Nil remapLead_def
        mapGet_def setAll_def mapValues_def)

lemma toStr_present:
  "campaignId a \<noteq> None \<Longrightarrow> campaignId b \<noteq> None \<Longrightarrow>
   toStr (campaignId a) = toStr (campaignId b) \<Longrightarrow> campaignId a = campaignId b"
  by (auto simp: toStr_def)

section \<open>Claims about the start-up reconciliation\<close>

text \<open>
  C1. When both queries return, so that the merge runs, the published campaigns have
  pairwise different normalized niches: two surviving campaigns with the same
  \<open>campaignKey\<close> are the same campaign. Each survivor is the first campaign of its
  normalized niche in the iteration order of the campaign list after the union by id,
  and every normalized niche of that list has a survivor.
\<close>

theorem campaign_collapse_quotient:
  "distinct (map campaignKey (campaigns (init lc ll (Some (cData, lData)))))
   \<and> (\<forall>A\<in>set (campaigns (init lc ll (Some (cData, lData)))).
        \<forall>B\<in>set (campaigns (init lc ll (Some (cData, lData)))).
          campaignKey A = campaignKey B \<longrightarrow> A = B)
   \<and> (\<forall>A\<in>set (campaigns (init lc ll (Some (cData, lData)))).
        find (\<lambda>x. campaignKey x = campaignKey A) (unionCampaigns lc cData) = Some A)
   \<and> campaignKey ` set (campaigns (init lc ll (Some (cData, lData))))
        = campaignKey ` set (unionCampaigns lc cData)"
proof -
  let ?raw = "unionCampaigns lc cData"
  let ?m = "nicheMap (collapse ?raw)"
  have keyed: "\<forall>p\<in>set ?m. fst p = campaignKey (snd p)"
    and dist: "distinct (map fst ?m)"
    and keys: "fst ` set ?m = campaignKey ` set ?raw"
    and first: "\<forall>p\<in>set ?m. find (\<lambda>x. campaignKey x = fst p) ?raw = Some (snd p)"
    using collapse_nicheMap[of ?raw] by blast+
  have d: "distinct (map campaignKey (mapValues ?m))"
    using dist keyed by (rule keyed_values_distinct)
  have inj: "\<forall>A\<in>set (mapValues ?m). \<forall>B\<in>set (mapValues ?m). campaignKey A = campaignKey B \<longrightarrow> A = B"
    using d by (auto simp: distinct_map inj_on_def)
  have f: "\<forall>A\<in>set (mapValues ?m). find (\<lambda>x. campaignKey x = campaignKey A) ?raw = Some A"
    using first keyed by (simp add: mapValues_def)
  have "campaignKey ` set (mapValues ?m) = fst ` set ?m"
    using keyed by (simp add: mapValues_def image_image)
  then have k: "campaignKey ` set (mapValues ?m) = campaignKey ` set ?raw" using keys by simp
  show ?thesis unfolding init_campaigns using d inj f k by blast
qed

text \<open>
  The scenario of two local campaigns with niches \<^verbatim>\<open>pizzaria\<close> and \<^verbatim>\<open>PIZZARIA!!\<close>:
  the first one is a survivor, and it is the first campaign of its normalized niche.
\<close>

theorem campaign_collapse_quotient_witness:
  "mkCampaign ''1'' ''pizzaria''
     \<in> set (campaigns (init [mkCampaign ''1'' ''pizzaria'', mkCampaign ''2'' ''PIZZARIA!!'']
                [mkLead ''a'' (Some ''1''), mkLead ''a'' (Some ''2'')] (Some (None, None))))
   \<and> find (\<lambda>x. campaignKey x = campaignKey (mkCampaign ''1'' ''pizzaria''))
        (unionCampaigns [mkCampaign ''1'' ''pizzaria'', mkCampaign ''2'' ''PIZZARIA!!''] None)
       = Some (mkCampaign ''1'' ''pizzaria'')
   \<and> campaigns (init [mkCampaign ''1'' ''pizzaria'', mkCampaign ''2'' ''PIZZARIA!!'']
                [mkLead ''a'' (Some ''1''), mkLead ''a'' (Some ''2'')] (Some (None, None)))
       = [mkCampaign ''1'' ''pizzaria'']"
proof -
  let ?cs = "[mkCampaign ''1'' ''pizzaria'', mkCampaign ''2'' ''PIZZARIA!!'']"
  let ?ls = "[mkLead ''a'' (Some ''1''), mkLead ''a'' (Some ''2'')]"
  have e: "campaigns (init ?cs ?ls (Some (None, None))) = [mkCampaign ''1'' ''pizzaria'']"
    by code_simp
  then have h: "mkCampaign ''1'' ''pizzaria'' \<in> set (campaigns (init ?cs ?ls (Some (None, None))))"
    by simp
  from campaign_collapse_quotient[of ?cs ?ls None None] h
  have "find (\<lambda>x. campaignKey x = campaignKey (mkCampaign ''1'' ''pizzaria''))
          (unionCampaigns ?cs None) = Some (mkCampaign ''1'' ''pizzaria'')"
    by blast
  with h e show ?thesis by blast
qed

text \<open>
  C2. When the merge runs, no two leads of the published lead list share the pair
  \<open>(id, campaignId)\<close>.
\<close>

theorem lead_uniqueness:
  "distinct (map (\<lambda>l. (lead_id l, campaignId l)) (leads (init lc ll (Some (cData, lData)))))"
proof -
  let ?ls = "leads (init lc ll (Some (cData, lData)))"
  have "distinct (map leadKey ?ls)" unfolding init_leads by (rule setAll_values_distinct)
  moreover have "leadKey = (\<lambda>p. fst p @ ''_'' @ toStr (snd p)) \<circ> (\<lambda>l. (lead_id l, campaignId l))"
    by (auto simp: leadKey_def fun_eq_iff)
  ultimately have "distinct (map ((\<lambda>p. fst p @ ''_'' @ toStr (snd p)) \<circ> (\<lambda>l. (lead_id l, campaignId l))) ?ls)"
    by simp
  then show ?thesis by (rule distinct_map_comp)
qed



text \<open>
  C9 as stated fails. The merge does deduplicate by the string \<^verbatim>\<open>id_campaignId\<close>, and
  derived ids do contain the separator, but no two leads whose ids are made by
  \<open>createNormalizedId\<close> and that are in a campaign have different \<open>(id, campaignId)\<close>
  pairs and the same key.
\<close>

theorem lead_key_collision_counterexample:
  "\<not> (\<exists>a b nm ph nb nm' ph' nb'.
        lead_id a = createNormalizedId nm ph nb \<and> lead_id b = createNormalizedId nm' ph' nb'
        \<and> campaignId a \<noteq> None \<and> campaignId b \<noteq> None
        \<and> (lead_id a, campaignId a) \<noteq> (lead_id b, campaignId b)
        \<and> leadKey a = leadKey b)"
proof
  assume "\<exists>a b nm ph nb nm' ph' nb'.
        lead_id a = createNormalizedId nm ph nb \<and> lead_id b = createNormalizedId nm' ph' nb'
        \<and> campaignId a \<noteq> None \<and> campaignId b \<noteq> None
        \<and> (lead_id a, campaignId a) \<noteq> (lead_id b, campaignId b)
        \<and> leadKey a = leadKey b"
  then obtain a b nm ph nb nm' ph' nb' where
    da: "lead_id a = createNormalizedId nm ph nb" and db: "lead_id b = createNormalizedId nm' ph' nb'"
    and pa: "campaignId a \<noteq> None" and pb: "campaignId b \<noteq> None"
    and ne: "(lead_id a, campaignId a) \<noteq> (lead_id b, campaignId b)"
    and k: "leadKey a = leadKey b"
    by blast
  from derived_key_injective[OF da db k]
  have "lead_id a = lead_id b" and "toStr (campaignId a) = toStr (campaignId b)" by simp_all
  with toStr_present[OF pa pb] ne show False by simp
qed

text \<open>
  C9, as amended. The merge deduplicates leads by the string \<^verbatim>\<open>id_campaignId\<close>, and
  every id made by \<open>createNormalizedId\<close> contains the separator \<^verbatim>\<open>_\<close>. Yet for two
  leads that are in a campaign, equal keys mean equal \<open>(id, campaignId)\<close> pairs, both
  when the ids are made by \<open>createNormalizedId\<close> and when the campaign ids hold no
  separator. Of two leads with the same key the merge keeps only the later one in
  iteration order, whether both come from one replica or one from each.
\<close>

theorem lead_key_determines_pair:
  "(\<forall>n p h. CHR ''_'' \<in> set (createNormalizedId n p h))
   \<and> (lead_id a = createNormalizedId nm ph nb \<and> lead_id b = createNormalizedId nm' ph' nb'
        \<and> campaignId a \<noteq> None \<and> campaignId b \<noteq> None \<and> leadKey a = leadKey b
      \<longrightarrow> lead_id a = lead_id b \<and> campaignId a = campaignId b)
   \<and> (CHR ''_'' \<notin> set (toStr (campaignId a)) \<and> CHR ''_'' \<notin> set (toStr (campaignId b))
        \<and> campaignId a \<noteq> None \<and> campaignId b \<noteq> None \<and> leadKey a = leadKey b
      \<longrightarrow> lead_id a = lead_id b \<and> campaignId a = campaignId b)
   \<and> (leadKey a = leadKey b
      \<longrightarrow> leads (init [] [a, b] (Some (None, None))) = [b]
        \<and> leads (init [] [a] (Some (None, Some [b]))) = [b])"
proof -
  have sep: "\<forall>n p h. CHR ''_'' \<in> set (createNormalizedId n p h)"
    by (simp add: createNormalizedId_def Let_def)
  have derived: "lead_id a = createNormalizedId nm ph nb \<and> lead_id b = createNormalizedId nm' ph' nb'
        \<and> campaignId a \<noteq> None \<and> campaignId b \<noteq> None \<and> leadKey a = leadKey b
      \<longrightarrow> lead_id a = lead_id b \<and> campaignId a = campaignId b"
    using derived_key_injective[of a nm ph nb b nm' ph' nb'] toStr_present[of a b] by blast
  have plain: "CHR ''_'' \<notin> set (toStr (campaignId a)) \<and> CHR ''_'' \<notin> set (toStr (campaignId b))
        \<and> campaignId a \<noteq> None \<and> campaignId b \<noteq> None \<and> leadKey a = leadKey b
      \<longrightarrow> lead_id a = lead_id b \<and> campaignId a = campaignId b"
    using leadKey_injective[of a b] toStr_present[of a b] by blast
  have later: "leadKey a = leadKey b
      \<longrightarrow> leads (init [] [a, b] (Some (None, None))) = [b]
        \<and> leads (init [] [a] (Some (None, Some [b]))) = [b]"
    using same_key_later_wins[of a b] same_key_remote_wins[of a b] by blast
  from sep derived plain later show ?thesis by blast
qed

text \<open>
  The same business stored twice in campaign \<^verbatim>\<open>1700000000000\<close>, as new and as
  contacted: one key, one pair, and the merge keeps the later record.
\<close>

theorem lead_key_determines_pair_witness:
  "lead_id (storedLead ''1700000000000'' New)
      = createNormalizedId ''Pizza Um'' ''11999998888'' ''Centro''
   \<and> lead_id (storedLead ''1700000000000'' Contacted)
      = createNormalizedId ''Pizza Um'' ''11999998888'' ''Centro''
   \<and> campaignId (storedLead ''1700000000000'' New) \<noteq> None
   \<and> campaignId (storedLead ''1700000000000'' Contacted) \<noteq> None
   \<and> leadKey (storedLead ''1700000000000'' New) = leadKey (storedLead ''1700000000000'' Contacted)
   \<and> storedLead ''1700000000000'' New \<noteq> storedLead ''1700000000000'' Contacted
   \<and> campaignId (storedLead ''1700000000000'' New)
      = campaignId (storedLead ''1700000000000'' Contacted)
   \<and> leads (init [] [storedLead ''1700000000000'' New, storedLead ''1700000000000'' Contacted]
        (Some (None, None))) = [storedLead ''1700000000000'' Contacted]"
proof -
  let ?a = "storedLead ''1700000000000'' New"
  let ?b = "storedLead ''1700000000000'' Contacted"
  have da: "lead_id ?a = createNormalizedId ''Pizza Um'' ''11999998888'' ''Centro''"
    by (simp add: storedLead_def newBusiness_def Let_def)
  have db: "lead_id ?b = createNormalizedId ''Pizza Um'' ''11999998888'' ''Centro''"
    by (simp add: storedLead_def newBusiness_def Let_def)
  have pa: "campaignId ?a \<noteq> None" and pb: "campaignId ?b \<noteq> None"
    by (simp_all add: storedLead_def)
  have k: "leadKey ?a = leadKey ?b"
    by (simp add: leadKey_def storedLead_def newBusiness_def Let_def)
  have ne: "?a \<noteq> ?b"
    by (simp add: storedLead_def newBusiness_def Let_def)
  note t = lead_key_determines_pair[of ?a "''Pizza Um''" "''11999998888''" "''Centro''" ?b
             "''Pizza Um''" "''11999998888''" "''Centro''"]
  from t da db pa pb k have c: "campaignId ?a = campaignId ?b" by blast
  from t k have l: "leads (init [] [?a, ?b] (Some (None, None))) = [?b]" by blast
  from da db pa pb k ne c l show ?thesis by blast
qed

section \<open>Properties of the mining fold and loop\<close>

lemma leadExists_iff:
  "leadExists cur t biz \<longleftrightarrow>
     (\<exists>l\<in>set cur. (lead_id l = lead_id biz \<and> campaignId l = Some t)
        \<or> (normalize (phone biz) \<noteq> [] \<and> normalize (phone l) = normalize (phone biz)))"
  by (simp add: leadExists_def Let_def list_ex_iff)

lemma leadExists_append: "leadExists cur t biz \<Longrightarrow> leadExists (cur @ xs) t biz"
  by (auto simp: leadExists_iff)

lemma foldBiz_skip:
  "leadExists (currentLeadsState st) t biz \<Longrightarrow>
   foldBiz t now st biz = st\<lparr>totalSkipped := totalSkipped st + 1\<rparr>"
  by (simp add: foldBiz_def)

lemma foldBiz_extends:
  "\<exists>xs. currentLeadsState (foldBiz t now st biz) = currentLeadsState st @ xs"
  by (simp add: foldBiz_def Let_def)

lemma foldBiz_exists: "leadExists (currentLeadsState (foldBiz t now st biz)) t biz"
  by (auto simp: foldBiz_def Let_def leadExists_iff)

lemma foldBatch_extends:
  "\<exists>xs. currentLeadsState (foldBatch t clock k batch st) = currentLeadsState st @ xs"
proof (induction batch arbitrary: k st)
  case Nil
  show ?case by simp
next
  case (Cons biz rest)
  obtain xs where a: "currentLeadsState (foldBiz t (clock k) st biz) = currentLeadsState st @ xs"
    using foldBiz_extends by blast
  obtain ys where "currentLeadsState (foldBatch t clock (Suc k) rest (foldBiz t (clock k) st biz))
      = currentLeadsState (foldBiz t (clock k) st biz) @ ys"
    using Cons.IH by blast
  with a show ?case by simp
qed

lemma foldBatch_keeps:
  "leadExists (currentLeadsState st) t b \<Longrightarrow>
   leadExists (currentLeadsState (foldBatch t clock k batch st)) t b"
  using foldBatch_extends[of t clock k batch st] leadExists_append by force

lemma foldBatch_all_exist:
  "\<forall>b\<in>set batch. leadExists (currentLeadsState (foldBatch t clock k batch st)) t b"
proof (induction batch arbitrary: k st)
  case Nil
  show ?case by simp
next
  case (Cons biz rest)
  have "leadExists (currentLeadsState (foldBatch t clock (Suc k) rest (foldBiz t (clock k) st biz))) t biz"
    by (rule foldBatch_keeps) (rule foldBiz_exists)
  with Cons.IH show ?case by simp
qed

lemma foldBatch_all_skipped:
  "\<forall>b\<in>set batch. leadExists (currentLeadsState st) t b \<Longrightarrow>
   foldBatch t clock k batch st = st\<lparr>totalSkipped := totalSkipped st + length batch\<rparr>"
proof (induction batch arbitrary: k st)
  case Nil
  show ?case by simp
next
  case (Cons biz rest)
  let ?st' = "st\<lparr>totalSkipped := totalSkipped st + 1\<rparr>"
  have s: "foldBiz t (clock k) st biz = ?st'" using Cons.prems by (simp add: foldBiz_skip)
  have "\<forall>b\<in>set rest. leadExists (currentLeadsState ?st') t b" using Cons.prems by simp
  from Cons.IH[OF this] show ?case by (simp add: s)
qed

lemma loop_prefix:
  "\<forall>r\<in>set pre. \<not> halts (snd r) \<Longrightarrow>
   miningLoop t clock i (pre @ rest) st
     = miningLoop t clock (i + length pre) rest (miningLoop t clock i pre st)"
proof (induction pre arbitrary: i st)
  case Nil
  show ?case by simp
next
  case (Cons p pre)
  obtain barrio outcome where p: "p = (barrio, outcome)" by (cases p)
  from Cons.prems p have nh: "\<not> halts outcome" and rest: "\<forall>r\<in>set pre. \<not> halts (snd r)" by simp_all
  show ?case
  proof (cases outcome)
    case (Inl msg)
    with nh have "\<not> includes_str msg ''429''" and "\<not> includes_str msg ''API_KEY_MISSING''"
      by (simp_all add: halts_def)
    then show ?thesis using Cons.IH[OF rest] by (simp add: p Inl)
  next
    case (Inr result)
    then show ?thesis using Cons.IH[OF rest] by (simp add: p Let_def)
  qed
qed

lemma foldBiz_searched: "searched (foldBiz t now st biz) = searched st"
  by (simp add: foldBiz_def Let_def)

lemma foldBatch_searched: "searched (foldBatch t clock k batch st) = searched st"
  by (induction batch arbitrary: k st) (simp_all add: foldBiz_searched)

lemma loop_searched:
  "\<forall>r\<in>set pre. \<not> halts (snd r) \<Longrightarrow>
   searched (miningLoop t clock i pre st) = searched st @ map fst pre"
proof (induction pre arbitrary: i st)
  case Nil
  show ?case by simp
next
  case (Cons p pre)
  obtain barrio outcome where p: "p = (barrio, outcome)" by (cases p)
  from Cons.prems p have nh: "\<not> halts outcome" and rest: "\<forall>r\<in>set pre. \<not> halts (snd r)" by simp_all
  show ?case
  proof (cases outcome)
    case (Inl msg)
    with nh have "\<not> includes_str msg ''429''" and "\<not> includes_str msg ''API_KEY_MISSING''"
      by (simp_all add: halts_def)
    then show ?thesis using Cons.IH[OF rest] by (simp add: p Inl)
  next
    case (Inr result)
    then show ?thesis using Cons.IH[OF rest] by (simp add: p Let_def foldBatch_searched)
  qed
qed

section \<open>Claims about mining\<close>

text \<open>
  C4. Fold a batch into the accumulated leads, then fold the same batch again with the
  same target campaign (whatever the clock shows): the second fold adds no lead, saves
  nothing, and counts every candidate as skipped. A single candidate is skipped, and
  not counted as new, exactly when some accumulated lead has its \<open>(id, campaignId)\<close>
  or, its normalized phone being non-empty, the same normalized phone.
\<close>

theorem mining_fold_idempotent:
  "(let s1 = foldBatch t clock1 k1 batch s0;
        s2 = foldBatch t clock2 k2 batch (s1\<lparr>batchToSave := []\<rparr>)
    in s2 = s1\<lparr>batchToSave := [], totalSkipped := totalSkipped s1 + length batch\<rparr>)
   \<and> (totalSkipped (foldBiz t now st biz) = totalSkipped st + 1
        \<and> totalNew (foldBiz t now st biz) = totalNew st
      \<longleftrightarrow> (\<exists>l\<in>set (currentLeadsState st).
            (lead_id l = lead_id biz \<and> campaignId l = Some t)
          \<or> (normalize (phone biz) \<noteq> [] \<and> normalize (phone l) = normalize (phone biz))))"
proof -
  let ?s1 = "foldBatch t clock1 k1 batch s0"
  have "\<forall>b\<in>set batch. leadExists (currentLeadsState (?s1\<lparr>batchToSave := []\<rparr>)) t b"
    using foldBatch_all_exist[of batch t clock1 k1 s0] by simp
  then have "foldBatch t clock2 k2 batch (?s1\<lparr>batchToSave := []\<rparr>)
      = ?s1\<lparr>batchToSave := [], totalSkipped := totalSkipped ?s1 + length batch\<rparr>"
    by (simp add: foldBatch_all_skipped)
  moreover have "(totalSkipped (foldBiz t now st biz) = totalSkipped st + 1
        \<and> totalNew (foldBiz t now st biz) = totalNew st)
      \<longleftrightarrow> leadExists (currentLeadsState st) t biz"
    by (simp add: foldBiz_def Let_def)
  ultimately show ?thesis by (simp add: Let_def leadExists_iff)
qed

text \<open>
  Two businesses with the phone \<^verbatim>\<open>11999998888\<close> and different names: the first fold
  accepts one and skips one; the second fold of the same batch skips both.
\<close>

theorem mining_fold_idempotent_witness:
  "totalNew (foldBatch ''1'' (\<lambda>k. ''t1'') 0
      [newBusiness ''Pizza Um'' ''11999998888'' ''Centro'',
       newBusiness ''Pizza Dois'' ''11999998888'' ''Centro''] (miningStart [])) = 1
   \<and> totalSkipped (foldBatch ''1'' (\<lambda>k. ''t1'') 0
      [newBusiness ''Pizza Um'' ''11999998888'' ''Centro'',
       newBusiness ''Pizza Dois'' ''11999998888'' ''Centro''] (miningStart [])) = 1
   \<and> totalNew (foldBatch ''1'' (\<lambda>k. ''t2'') 0
      [newBusiness ''Pizza Um'' ''11999998888'' ''Centro'',
       newBusiness ''Pizza Dois'' ''11999998888'' ''Centro'']
      ((foldBatch ''1'' (\<lambda>k. ''t1'') 0
         [newBusiness ''Pizza Um'' ''11999998888'' ''Centro'',
          newBusiness ''Pizza Dois'' ''11999998888'' ''Centro''] (miningStart []))
         \<lparr>batchToSave := []\<rparr>)) = 1
   \<and> totalSkipped (foldBatch ''1'' (\<lambda>k. ''t2'') 0
      [newBusiness ''Pizza Um'' ''11999998888'' ''Centro'',
       newBusiness ''Pizza Dois'' ''11999998888'' ''Centro'']
      ((foldBatch ''1'' (\<lambda>k. ''t1'') 0
         [newBusiness ''Pizza Um'' ''11999998888'' ''Centro'',
          newBusiness ''Pizza Dois'' ''11999998888'' ''Centro''] (miningStart []))
         \<lparr>batchToSave := []\<rparr>)) = 3"
proof -
  let ?batch = "[newBusiness ''Pizza Um'' ''11999998888'' ''Centro'',
                 newBusiness ''Pizza Dois'' ''11999998888'' ''Centro'']"
  let ?s1 = "foldBatch ''1'' (\<lambda>k. ''t1'') 0 ?batch (miningStart [])"
  have n: "totalNew ?s1 = 1" by code_simp
  have k: "totalSkipped ?s1 = 1" by code_simp
  from mining_fold_idempotent[of "''1''" "\<lambda>k. ''t1''" 0 ?batch "miningStart []" "\<lambda>k. ''t2''" 0]
  have "foldBatch ''1'' (\<lambda>k. ''t2'') 0 ?batch (?s1\<lparr>batchToSave := []\<rparr>)
          = ?s1\<lparr>batchToSave := [], totalSkipped := totalSkipped ?s1 + length ?batch\<rparr>"
    by (simp add: Let_def)
  then show ?thesis using n k by simp
qed

text \<open>
  C6. Let no neighbourhood before \<open>barrio\<close> give a halting error, and let the search
  for \<open>barrio\<close> throw an error with message \<open>msg\<close>. If \<open>msg\<close> contains \<^verbatim>\<open>429\<close>, the
  run ends there with the come-back-later message: no later neighbourhood is searched,
  whatever follows in the list. Otherwise, if \<open>msg\<close> contains \<^verbatim>\<open>API_KEY_MISSING\<close>,
  it ends there with the configuration message. Otherwise the generic message is set
  and the loop goes on with the next neighbourhood.
\<close>

theorem mining_error_classification:
  assumes "\<forall>r\<in>set pre. \<not> halts (snd r)"
  shows "(includes_str msg ''429'' \<longrightarrow>
           miningLoop t clock i (pre @ (barrio, Inl msg) # post) st
             = (miningLoop t clock i pre st)
                 \<lparr>searched := searched st @ map fst pre @ [barrio],
                  errorMessageSet := Some quotaMessage\<rparr>)
       \<and> (\<not> includes_str msg ''429'' \<and> includes_str msg ''API_KEY_MISSING'' \<longrightarrow>
           miningLoop t clock i (pre @ (barrio, Inl msg) # post) st
             = (miningLoop t clock i pre st)
                 \<lparr>searched := searched st @ map fst pre @ [barrio],
                  errorMessageSet := Some credentialMessage\<rparr>)
       \<and> (\<not> includes_str msg ''429'' \<and> \<not> includes_str msg ''API_KEY_MISSING'' \<longrightarrow>
           miningLoop t clock i (pre @ (barrio, Inl msg) # post) st
             = miningLoop t clock (Suc (i + length pre)) post
                 ((miningLoop t clock i pre st)
                    \<lparr>searched := searched st @ map fst pre @ [barrio],
                     errorMessageSet := Some unexpectedMessage\<rparr>))"
  using loop_prefix[OF assms, of t clock i "(barrio, Inl msg) # post" st] loop_searched[OF assms, of t clock i st]
  by simp

text \<open>
  One neighbourhood mined, then a quota error at the second of three: the third is
  never searched.
\<close>

theorem mining_error_classification_witness:
  "\<not> halts (Inr \<lparr>businesses = [newBusiness ''Pizza Um'' ''11999998888'' ''Centro''],
                      sources = []\<rparr>)
   \<and> includes_str ''Error 429: quota'' ''429''
   \<and> searched (miningLoop ''1'' (\<lambda>i k. ''t'') 0
        ([(''Centro'', Inr \<lparr>businesses = [newBusiness ''Pizza Um'' ''11999998888'' ''Centro''],
                              sources = []\<rparr>)]
          @ (''Tibery'', Inl ''Error 429: quota'')
          # [(''Brasil'', Inr \<lparr>businesses = [], sources = []\<rparr>)]) (miningStart []))
       = [''Centro'', ''Tibery'']
   \<and> errorMessageSet (miningLoop ''1'' (\<lambda>i k. ''t'') 0
        ([(''Centro'', Inr \<lparr>businesses = [newBusiness ''Pizza Um'' ''11999998888'' ''Centro''],
                              sources = []\<rparr>)]
          @ (''Tibery'', Inl ''Error 429: quota'')
          # [(''Brasil'', Inr \<lparr>businesses = [], sources = []\<rparr>)]) (miningStart []))
       = Some quotaMessage"
proof -
  let ?pre = "[(''Centro'', Inr \<lparr>businesses = [newBusiness ''Pizza Um'' ''11999998888'' ''Centro''],
                                 sources = []\<rparr>)] :: (string \<times> (string + searchResult)) list"
  let ?post = "[(''Brasil'', Inr \<lparr>businesses = [], sources = []\<rparr>)]
                 :: (string \<times> (string + searchResult)) list"
  have h0: "\<not> halts (Inr \<lparr>businesses = [newBusiness ''Pizza Um'' ''11999998888'' ''Centro''],
                               sources = []\<rparr>)"
    by (simp add: halts_def)
  then have h: "\<forall>r\<in>set ?pre. \<not> halts (snd r)" by simp
  have m: "includes_str ''Error 429: quota'' ''429''" by simp
  have s0: "searched (miningStart []) = []" by (simp add: miningStart_def)
  have "miningLoop ''1'' (\<lambda>i k. ''t'') 0 (?pre @ (''Tibery'', Inl ''Error 429: quota'') # ?post)
          (miningStart [])
        = (miningLoop ''1'' (\<lambda>i k. ''t'') 0 ?pre (miningStart []))
            \<lparr>searched := searched (miningStart []) @ map fst ?pre @ [''Tibery''],
             errorMessageSet := Some quotaMessage\<rparr>"
    by (rule mining_error_classification[OF h, THEN conjunct1, THEN mp, OF m])
  then show ?thesis using h0 m s0 by simp
qed

text \<open>
  C7. A run that accepts one lead in the first neighbourhood and is halted by a quota
  error in the second ends with the come-back-later message set, and still starts the
  timer that moves to the leads view: the test in \<^verbatim>\<open>finally\<close> reads the
  \<^verbatim>\<open>errorMessage\<close> of the render that made the handler, which was null. Conversely a
  run without any error that accepts a lead does not start the timer when an earlier
  message was still displayed at the time the form was submitted.
\<close>

theorem auto_navigation_after_quota_halt:
  "map_option navigatesToLeads (handleStartMining stillEnv (pizzaForm None)
      [(''Centro'', Inr \<lparr>businesses = [newBusiness ''Pizza Um'' ''11999998888'' ''Centro''],
                           sources = []\<rparr>),
       (''Tibery'', Inl ''Error 429: quota'')]) = Some True
   \<and> map_option (\<lambda>out. errorMessageSet (run out)) (handleStartMining stillEnv (pizzaForm None)
      [(''Centro'', Inr \<lparr>businesses = [newBusiness ''Pizza Um'' ''11999998888'' ''Centro''],
                           sources = []\<rparr>),
       (''Tibery'', Inl ''Error 429: quota'')]) = Some (Some quotaMessage)
   \<and> map_option (\<lambda>out. totalNew (run out)) (handleStartMining stillEnv (pizzaForm None)
      [(''Centro'', Inr \<lparr>businesses = [newBusiness ''Pizza Um'' ''11999998888'' ''Centro''],
                           sources = []\<rparr>),
       (''Tibery'', Inl ''Error 429: quota'')]) = Some 1
   \<and> map_option navigatesToLeads
       (handleStartMining stillEnv (pizzaForm (Some ''Nenhum bairro encontrado para esta cidade.''))
      [(''Centro'', Inr \<lparr>businesses = [newBusiness ''Pizza Um'' ''11999998888'' ''Centro''],
                           sources = []\<rparr>)]) = Some False
   \<and> map_option (\<lambda>out. (errorMessageSet (run out), totalNew (run out)))
       (handleStartMining stillEnv (pizzaForm (Some ''Nenhum bairro encontrado para esta cidade.''))
      [(''Centro'', Inr \<lparr>businesses = [newBusiness ''Pizza Um'' ''11999998888'' ''Centro''],
                           sources = []\<rparr>)]) = Some (None, 1)"
  by code_simp

section \<open>Properties of the duplicate scan\<close>

lemma scanLeads_snoc: "scanLeads (xs @ [x]) = scanStep (scanLeads xs) x"
  by (simp add: scanLeads_def)

lemma scanLeads_Nil: "scanLeads [] = \<lparr>phoneMap = [], dupesFound = [], keptLeads = []\<rparr>"
  by (simp add: scanLeads_def)

lemma scan_phoneMap:
  "fst ` set (phoneMap (scanLeads xs)) = {p. p \<noteq> [] \<and> p \<in> (\<lambda>l. normalize (phone l)) ` set xs}"
proof (induction xs rule: rev_induct)
  case Nil
  show ?case by (simp add: scanLeads_Nil)
next
  case (snoc x xs)
  show ?case
  proof (cases "normalize (phone x) \<noteq> [] \<and> mapHas (phoneMap (scanLeads xs)) (normalize (phone x))")
    case True
    then have "normalize (phone x) \<in> fst ` set (phoneMap (scanLeads xs))" by (simp add: mapHas_def)
    then show ?thesis using True snoc.IH
      by (auto simp: scanLeads_snoc scanStep_def Let_def)
  next
    case False
    show ?thesis
    proof (cases "normalize (phone x) = []")
      case True
      then show ?thesis using snoc.IH by (auto simp: scanLeads_snoc scanStep_def Let_def)
    next
      case False
      then show ?thesis using snoc.IH
        by (auto simp: scanLeads_snoc scanStep_def Let_def mapSet_dom mapHas_def)
    qed
  qed
qed

lemma scan_has:
  "normalize (phone x) \<noteq> [] \<and> mapHas (phoneMap (scanLeads xs)) (normalize (phone x)) \<longleftrightarrow> alreadySeen (xs @ [x]) (length xs)"
  using scan_phoneMap[of xs] by (auto simp: mapHas_def alreadySeen_def)

lemma alreadySeen_snoc: "i < length xs \<Longrightarrow> alreadySeen (xs @ [x]) i = alreadySeen xs i"
  by (simp add: alreadySeen_def nth_append)

lemma scan_lists:
  "dupesFound (scanLeads xs) = map ((!) xs) (filter (alreadySeen xs) [0..<length xs])
   \<and> keptLeads (scanLeads xs) = map ((!) xs) (filter (\<lambda>i. \<not> alreadySeen xs i) [0..<length xs])"
proof (induction xs rule: rev_induct)
  case Nil
  show ?case by (simp add: scanLeads_Nil)
next
  case (snoc x xs)
  have f1: "filter (alreadySeen (xs @ [x])) [0..<length xs] = filter (alreadySeen xs) [0..<length xs]"
    by (rule filter_cong) (simp_all add: alreadySeen_snoc)
  have f2: "filter (\<lambda>i. \<not> alreadySeen (xs @ [x]) i) [0..<length xs]
              = filter (\<lambda>i. \<not> alreadySeen xs i) [0..<length xs]"
    by (rule filter_cong) (simp_all add: alreadySeen_snoc)
  have m: "map ((!) (xs @ [x])) (filter Q [0..<length xs]) = map ((!) xs) (filter Q [0..<length xs])" for Q
    by (rule map_cong) (auto simp: nth_append)
  show ?case
  proof (cases "alreadySeen (xs @ [x]) (length xs)")
    case True
    then have "normalize (phone x) \<noteq> [] \<and> mapHas (phoneMap (scanLeads xs)) (normalize (phone x))" by (simp add: scan_has)
    then have "scanLeads (xs @ [x]) = (scanLeads xs)\<lparr>dupesFound := dupesFound (scanLeads xs) @ [x]\<rparr>"
      by (simp add: scanLeads_snoc scanStep_def Let_def)
    then show ?thesis using True snoc.IH by (simp add: f1 f2 m)
  next
    case False
    then have n: "\<not> (normalize (phone x) \<noteq> [] \<and> mapHas (phoneMap (scanLeads xs)) (normalize (phone x)))" by (simp add: scan_has)
    then have "keptLeads (scanLeads (xs @ [x])) = keptLeads (scanLeads xs) @ [x]"
      and "dupesFound (scanLeads (xs @ [x])) = dupesFound (scanLeads xs)"
      by (auto simp: scanLeads_snoc scanStep_def Let_def)
    then show ?thesis using False snoc.IH by (simp add: f1 f2 m)
  qed
qed

lemma first_index:
  assumes "x \<in> set xs" and "P x"
  shows "\<exists>i<length xs. P (xs ! i) \<and> (\<forall>j<i. \<not> P (xs ! j))"
proof -
  from assms obtain n where "n < length xs \<and> P (xs ! n)" by (auto simp: in_set_conv_nth)
  then have "\<exists>n. n < length xs \<and> P (xs ! n)" ..
  then obtain i where i: "i < length xs \<and> P (xs ! i)"
    and least: "\<forall>j<i. \<not> (j < length xs \<and> P (xs ! j))"
    using exists_least_iff[of "\<lambda>n. n < length xs \<and> P (xs ! n)"] by auto
  then show ?thesis by (metis less_trans)
qed

lemma sortedLeads_desc:
  "i \<le> j \<Longrightarrow> j < length ls \<Longrightarrow>
   seenMs parse (sortedLeads parse ls ! j) \<le> seenMs parse (sortedLeads parse ls ! i)"
proof -
  assume ij: "i \<le> j" and j: "j < length ls"
  let ?s = "sortedLeads parse ls"
  have a: "sorted (map (\<lambda>l. - seenMs parse l) ?s)" by (simp add: sortedLeads_def)
  have b: "j < length (map (\<lambda>l. - seenMs parse l) ?s)" using j by (simp add: sortedLeads_def)
  have "map (\<lambda>l. - seenMs parse l) ?s ! i \<le> map (\<lambda>l. - seenMs parse l) ?s ! j"
    by (rule sorted_nth_mono[OF a ij b])
  then show ?thesis using ij j by (simp add: sortedLeads_def)
qed

lemma newest_survives:
  assumes l: "l \<in> set ls" and ne: "normalize (phone l) \<noteq> []"
  shows "\<exists>k\<in>set (keptLeads (scanLeads (sortedLeads parse ls))). normalize (phone k) = normalize (phone l)
           \<and> (\<forall>l'\<in>set ls. normalize (phone l') = normalize (phone l) \<longrightarrow> seenMs parse l' \<le> seenMs parse k)"
proof -
  let ?s = "sortedLeads parse ls"
  have len: "length ?s = length ls" and st: "set ?s = set ls" by (simp_all add: sortedLeads_def)
  from l st have "l \<in> set ?s" by simp
  from first_index[OF this, of "\<lambda>x. normalize (phone x) = normalize (phone l)"]
  obtain i where i: "i < length ?s" and pi: "normalize (phone (?s ! i)) = normalize (phone l)"
    and least: "\<forall>j<i. normalize (phone (?s ! j)) \<noteq> normalize (phone l)" by auto
  have "\<not> alreadySeen ?s i"
  proof
    assume "alreadySeen ?s i"
    then have "normalize (phone (?s ! i)) \<in> (\<lambda>l. normalize (phone l)) ` set (take i ?s)" by (simp add: alreadySeen_def)
    then obtain y where "y \<in> set (take i ?s)" and y: "normalize (phone y) = normalize (phone (?s ! i))" by auto
    then obtain j where "j < length (take i ?s)" and "take i ?s ! j = y"
      by (auto simp: in_set_conv_nth)
    then have "j < i" and "?s ! j = y" by simp_all
    with least y pi show False by auto
  qed
  then have "i \<in> set (filter (\<lambda>i. \<not> alreadySeen ?s i) [0..<length ?s])" using i by simp
  then have kept: "?s ! i \<in> set (keptLeads (scanLeads ?s))"
    using scan_lists[of ?s] by (metis (no_types, lifting) image_eqI list.set_map)
  have "seenMs parse l' \<le> seenMs parse (?s ! i)" if l': "l' \<in> set ls" and same: "normalize (phone l') = normalize (phone l)" for l'
  proof -
    from l' st have "l' \<in> set ?s" by simp
    then obtain j where j: "j < length ?s" and sj: "?s ! j = l'"
      by (auto simp: in_set_conv_nth)
    have "\<not> j < i" using least same sj by auto
    then have "i \<le> j" by simp
    from sortedLeads_desc[OF this, of ls parse] j len sj show ?thesis by simp
  qed
  with kept pi show ?thesis by blast
qed

lemma find_Some_mem: "find P xs = Some y \<Longrightarrow> y \<in> set xs \<and> P y"
  by (induction xs) (auto split: if_splits)

section \<open>Claims about duplicate cleanup\<close>

text \<open>
  C5. The leads in scope are put in descending order of \<^verbatim>\<open>lastSeenAt\<close> (a missing one
  counting as the epoch), leads of equal time keeping their order, and scanned in that
  order. The leads flagged are exactly those at the positions whose normalized phone
  is non-empty and was met earlier in the scan; all others are kept. So no lead with
  an empty normalized phone is flagged, and for every non-empty phone in scope a lead
  with that phone is kept that was seen at least as recently as every lead with that
  phone. For two leads with phone \<^verbatim>\<open>11999998888\<close> seen on 2024-01-02 and 2024-01-01
  the older one is flagged, in whichever order they are given.
\<close>

theorem phone_duplicate_detection:
  "(let scope = targetLeads cs ls active;
        srt = sortedLeads parse scope;
        r = handleCleanDuplicates parse cs ls active
    in mset srt = mset scope
     \<and> sorted_wrt (\<lambda>a b. seenMs parse b \<le> seenMs parse a) srt
     \<and> (\<forall>t. filter (\<lambda>l. seenMs parse l = t) srt = filter (\<lambda>l. seenMs parse l = t) scope)
     \<and> dupesFound r = map ((!) srt) (filter (alreadySeen srt) [0..<length srt])
     \<and> keptLeads r = map ((!) srt) (filter (\<lambda>i. \<not> alreadySeen srt i) [0..<length srt])
     \<and> (\<forall>l\<in>set (dupesFound r). normalize (phone l) \<noteq> [])
     \<and> (\<forall>l\<in>set scope. normalize (phone l) \<noteq> [] \<longrightarrow>
           (\<exists>k\<in>set (keptLeads r). normalize (phone k) = normalize (phone l)
              \<and> (\<forall>l'\<in>set scope. normalize (phone l') = normalize (phone l)
                     \<longrightarrow> seenMs parse l' \<le> seenMs parse k))))
   \<and> dupesFound (handleCleanDuplicates isoDateMs []
        [seenLead ''a'' ''11999998888'' ''2024-01-02'',
         seenLead ''b'' ''11999998888'' ''2024-01-01''] None)
      = [seenLead ''b'' ''11999998888'' ''2024-01-01'']
   \<and> dupesFound (handleCleanDuplicates isoDateMs []
        [seenLead ''b'' ''11999998888'' ''2024-01-01'',
         seenLead ''a'' ''11999998888'' ''2024-01-02''] None)
      = [seenLead ''b'' ''11999998888'' ''2024-01-01'']"
proof -
  let ?scope = "targetLeads cs ls active"
  let ?srt = "sortedLeads parse ?scope"
  let ?r = "scanLeads ?srt"
  have p1: "mset ?srt = mset ?scope" by (simp add: sortedLeads_def)
  have "sorted (map (\<lambda>l. - seenMs parse l) ?srt)" by (simp add: sortedLeads_def)
  then have p2: "sorted_wrt (\<lambda>a b. seenMs parse b \<le> seenMs parse a) ?srt"
    by (simp add: sorted_map)
  have p3: "filter (\<lambda>l. seenMs parse l = t) ?srt = filter (\<lambda>l. seenMs parse l = t) ?scope" for t
    using sort_key_stable[of "\<lambda>l. - seenMs parse l" "- t" ?scope] by (simp add: sortedLeads_def)
  have p4: "dupesFound ?r = map ((!) ?srt) (filter (alreadySeen ?srt) [0..<length ?srt])"
    and p5: "keptLeads ?r = map ((!) ?srt) (filter (\<lambda>i. \<not> alreadySeen ?srt i) [0..<length ?srt])"
    using scan_lists[of ?srt] by blast+
  have p6: "\<forall>l\<in>set (dupesFound ?r). normalize (phone l) \<noteq> []"
    unfolding p4 by (auto simp: alreadySeen_def)
  have p7: "\<forall>l\<in>set ?scope. normalize (phone l) \<noteq> [] \<longrightarrow>
           (\<exists>k\<in>set (keptLeads ?r). normalize (phone k) = normalize (phone l)
              \<and> (\<forall>l'\<in>set ?scope. normalize (phone l') = normalize (phone l)
                     \<longrightarrow> seenMs parse l' \<le> seenMs parse k))"
    using newest_survives[of _ ?scope parse] by blast
  have e1: "dupesFound (handleCleanDuplicates isoDateMs []
        [seenLead ''a'' ''11999998888'' ''2024-01-02'',
         seenLead ''b'' ''11999998888'' ''2024-01-01''] None)
      = [seenLead ''b'' ''11999998888'' ''2024-01-01'']"
    by code_simp
  have e2: "dupesFound (handleCleanDuplicates isoDateMs []
        [seenLead ''b'' ''11999998888'' ''2024-01-01'',
         seenLead ''a'' ''11999998888'' ''2024-01-02''] None)
      = [seenLead ''b'' ''11999998888'' ''2024-01-01'']"
    by code_simp
  have "handleCleanDuplicates parse cs ls active = ?r" by (simp add: handleCleanDuplicates_def)
  then show ?thesis unfolding Let_def using p1 p2 p3 p4 p5 p6 p7 e1 e2 by simp
qed

text \<open>
  In the scenario of the two dates the flagged lead is the older one, and its
  normalized phone is not empty.
\<close>

theorem phone_duplicate_detection_witness:
  "seenLead ''b'' ''11999998888'' ''2024-01-01''
     \<in> set (dupesFound (handleCleanDuplicates isoDateMs []
          [seenLead ''a'' ''11999998888'' ''2024-01-02'',
           seenLead ''b'' ''11999998888'' ''2024-01-01''] None))
   \<and> normalize (phone (seenLead ''b'' ''11999998888'' ''2024-01-01'')) \<noteq> []"
proof -
  let ?ls = "[seenLead ''a'' ''11999998888'' ''2024-01-02'',
              seenLead ''b'' ''11999998888'' ''2024-01-01'']"
  have h: "seenLead ''b'' ''11999998888'' ''2024-01-01''
             \<in> set (dupesFound (handleCleanDuplicates isoDateMs [] ?ls None))"
    by code_simp
  from phone_duplicate_detection[of "[]" ?ls None isoDateMs]
  have "\<forall>l\<in>set (dupesFound (handleCleanDuplicates isoDateMs [] ?ls None)).
          normalize (phone l) \<noteq> []"
    unfolding Let_def by blast
  with h show ?thesis by blast
qed

section \<open>Claims about lead updates\<close>

text \<open>
  C8 as stated fails: the WhatsApp link sets the status to contacted without looking
  at the current status, so a lead that is interested, closed or rejected goes back to
  contacted.
\<close>

theorem contact_action_transition_counterexample:
  "map status (leadsAfter (whatsappClick (statusLead ''a'' ''1'' Interested)
      [statusLead ''a'' ''1'' Interested])) = [Contacted]
   \<and> map status (leadsAfter (whatsappClick (statusLead ''a'' ''1'' Closed)
      [statusLead ''a'' ''1'' Closed])) = [Contacted]
   \<and> map status (leadsAfter (whatsappClick (statusLead ''a'' ''1'' Rejected)
      [statusLead ''a'' ''1'' Rejected])) = [Contacted]"
  by (simp add: whatsappClick_def statusLead_def)

text \<open>
  C8, as amended. The WhatsApp link sets the status of every lead with the id of the
  selected lead to contacted, whatever it was; the other fields and the other leads
  stay. Triggering it again changes nothing more, and when the leads with that id are
  already contacted the lead list is unchanged. Each time, if a lead with that id
  exists, one such lead is passed to the remote store, with status contacted.
\<close>

theorem contact_action_transition:
  "(\<forall>i<length ls. lead_id (ls ! i) = lead_id sel \<longrightarrow>
       leadsAfter (whatsappClick sel ls) ! i = (ls ! i)\<lparr>status := Contacted\<rparr>)
   \<and> (\<forall>i<length ls. lead_id (ls ! i) \<noteq> lead_id sel \<longrightarrow>
       leadsAfter (whatsappClick sel ls) ! i = ls ! i)
   \<and> length (leadsAfter (whatsappClick sel ls)) = length ls
   \<and> whatsappClick sel (leadsAfter (whatsappClick sel ls)) = whatsappClick sel ls
   \<and> ((\<forall>l\<in>set ls. lead_id l = lead_id sel \<longrightarrow> status l = Contacted) \<longrightarrow>
        leadsAfter (whatsappClick sel ls) = ls)
   \<and> (lead_id sel \<in> lead_id ` set ls \<longrightarrow>
        (\<exists>saved. cloudLeadSave (whatsappClick sel ls) = Some (Some saved)
           \<and> lead_id saved = lead_id sel \<and> status saved = Contacted))"
proof -
  let ?f = "\<lambda>l. if lead_id l = lead_id sel then l\<lparr>status := Contacted\<rparr> else l"
  have up: "leadsAfter (whatsappClick sel ls) = map ?f ls" by (simp add: whatsappClick_def Let_def)
  have idem: "?f \<circ> ?f = ?f" by (auto simp: fun_eq_iff)
  have a: "\<forall>i<length ls. lead_id (ls ! i) = lead_id sel \<longrightarrow>
       leadsAfter (whatsappClick sel ls) ! i = (ls ! i)\<lparr>status := Contacted\<rparr>"
    by (simp add: up)
  have b: "\<forall>i<length ls. lead_id (ls ! i) \<noteq> lead_id sel \<longrightarrow>
       leadsAfter (whatsappClick sel ls) ! i = ls ! i"
    by (simp add: up)
  have c: "length (leadsAfter (whatsappClick sel ls)) = length ls" by (simp add: up)
  have d: "whatsappClick sel (leadsAfter (whatsappClick sel ls)) = whatsappClick sel ls"
    unfolding up by (simp add: whatsappClick_def Let_def idem)
  have e: "(\<forall>l\<in>set ls. lead_id l = lead_id sel \<longrightarrow> status l = Contacted) \<longrightarrow>
        leadsAfter (whatsappClick sel ls) = ls"
    unfolding up by (induction ls) auto
  have f: "lead_id sel \<in> lead_id ` set ls \<longrightarrow>
        (\<exists>saved. cloudLeadSave (whatsappClick sel ls) = Some (Some saved)
           \<and> lead_id saved = lead_id sel \<and> status saved = Contacted)"
  proof
    assume "lead_id sel \<in> lead_id ` set ls"
    then obtain x where x: "x \<in> set ls" and xi: "lead_id x = lead_id sel" by auto
    have "?f x \<in> set (map ?f ls)" using x by (rule imageI[of x "set ls" ?f, folded set_map])
    moreover have "lead_id (?f x) = lead_id sel" using xi by simp
    ultimately have "\<exists>x\<in>set (map ?f ls). lead_id x = lead_id sel" by blast
    then obtain saved where s: "find (\<lambda>x. lead_id x = lead_id sel) (map ?f ls) = Some saved"
      by (cases "find (\<lambda>x. lead_id x = lead_id sel) (map ?f ls)") (auto simp: find_None_iff)
    then have m: "saved \<in> set (map ?f ls)" and i: "lead_id saved = lead_id sel"
      using find_Some_mem by fast+
    from m obtain l where "l \<in> set ls" and sl: "saved = ?f l" by auto
    have "lead_id (?f l) = lead_id l" by simp
    then have "lead_id l = lead_id sel" using i sl by simp
    then have "status saved = Contacted" using sl by simp
    with s i show "\<exists>saved. cloudLeadSave (whatsappClick sel ls) = Some (Some saved)
           \<and> lead_id saved = lead_id sel \<and> status saved = Contacted"
      by (simp add: whatsappClick_def Let_def)
  qed
  from a b c d e f show ?thesis by blast
qed

text \<open>A new lead becomes contacted, and is saved as such.\<close>

theorem contact_action_transition_witness:
  "(0::nat) < length [statusLead ''a'' ''1'' New]
   \<and> lead_id ([statusLead ''a'' ''1'' New] ! 0) = lead_id (statusLead ''a'' ''1'' New)
   \<and> leadsAfter (whatsappClick (statusLead ''a'' ''1'' New) [statusLead ''a'' ''1'' New]) ! 0
       = statusLead ''a'' ''1'' Contacted"
proof -
  have h1: "(0::nat) < length [statusLead ''a'' ''1'' New]" by simp
  have h2: "lead_id ([statusLead ''a'' ''1'' New] ! 0) = lead_id (statusLead ''a'' ''1'' New)"
    by simp
  from contact_action_transition[of "[statusLead ''a'' ''1'' New]" "statusLead ''a'' ''1'' New"]
    h1 h2
  have "leadsAfter (whatsappClick (statusLead ''a'' ''1'' New) [statusLead ''a'' ''1'' New]) ! 0
          = ([statusLead ''a'' ''1'' New] ! 0)\<lparr>status := Contacted\<rparr>"
    by blast
  then show ?thesis using h1 h2 by (simp add: statusLead_def)
qed

text \<open>
  C10. The three updates of the detail view choose the leads to rewrite by id alone.
  Whatever its campaign, a lead of the list with the id of the selected lead is
  replaced by the updated selected lead when a status button is pressed or a pitch is
  generated, and gets the status contacted when the WhatsApp link is followed; a lead
  with another id is left as it is.
\<close>

theorem update_ignores_campaign:
  assumes "i < length ls" and "lead_id (ls ! i) = lead_id sel"
  shows "leadsAfter (statusClick sel s ls) ! i = sel\<lparr>status := s\<rparr>
     \<and> leadsAfter (handleGeneratePitch sel (Inr pitch) ls) ! i = sel\<lparr>lead_notes := Some pitch\<rparr>
     \<and> leadsAfter (whatsappClick sel ls) ! i = (ls ! i)\<lparr>status := Contacted\<rparr>
     \<and> (\<forall>j<length ls. lead_id (ls ! j) \<noteq> lead_id sel \<longrightarrow>
           leadsAfter (statusClick sel s ls) ! j = ls ! j
         \<and> leadsAfter (handleGeneratePitch sel (Inr pitch) ls) ! j = ls ! j
         \<and> leadsAfter (whatsappClick sel ls) ! j = ls ! j)"
  using assms by (simp add: statusClick_def handleGeneratePitch_def whatsappClick_def Let_def)

text \<open>
  Lead \<^verbatim>\<open>a\<close> exists in campaigns \<^verbatim>\<open>1\<close> and \<^verbatim>\<open>2\<close>. Closing the one of campaign
  \<^verbatim>\<open>1\<close> turns the one of campaign \<^verbatim>\<open>2\<close> into a copy of it; a pitch for it becomes
  the note of both; and following its WhatsApp link marks both as contacted.
\<close>

theorem update_ignores_campaign_witness:
  "(1::nat) < length [statusLead ''a'' ''1'' New, statusLead ''a'' ''2'' Interested]
   \<and> lead_id ([statusLead ''a'' ''1'' New, statusLead ''a'' ''2'' Interested] ! 1)
       = lead_id (statusLead ''a'' ''1'' New)
   \<and> campaignId (statusLead ''a'' ''2'' Interested) \<noteq> campaignId (statusLead ''a'' ''1'' New)
   \<and> leadsAfter (statusClick (statusLead ''a'' ''1'' New) Closed
        [statusLead ''a'' ''1'' New, statusLead ''a'' ''2'' Interested]) ! 1
       = statusLead ''a'' ''1'' Closed
   \<and> lead_notes (leadsAfter (handleGeneratePitch (statusLead ''a'' ''1'' New) (Inr ''Ola!'')
        [statusLead ''a'' ''1'' New, statusLead ''a'' ''2'' Interested]) ! 1) = Some ''Ola!''
   \<and> status (leadsAfter (whatsappClick (statusLead ''a'' ''1'' New)
        [statusLead ''a'' ''1'' New, statusLead ''a'' ''2'' Interested]) ! 1) = Contacted"
proof -
  let ?ls = "[statusLead ''a'' ''1'' New, statusLead ''a'' ''2'' Interested]"
  have h1: "(1::nat) < length ?ls" by simp
  have h2: "lead_id (?ls ! 1) = lead_id (statusLead ''a'' ''1'' New)"
    by (simp add: statusLead_def)
  have h3: "campaignId (statusLead ''a'' ''2'' Interested) \<noteq> campaignId (statusLead ''a'' ''1'' New)"
    by (simp add: statusLead_def)
  note u = update_ignores_campaign[OF h1 h2, of Closed "''Ola!''"]
  from u have a: "leadsAfter (statusClick (statusLead ''a'' ''1'' New) Closed ?ls) ! 1
                    = (statusLead ''a'' ''1'' New)\<lparr>status := Closed\<rparr>"
    by blast
  from u have b: "leadsAfter (handleGeneratePitch (statusLead ''a'' ''1'' New) (Inr ''Ola!'') ?ls) ! 1
                    = (statusLead ''a'' ''1'' New)\<lparr>lead_notes := Some ''Ola!''\<rparr>"
    by blast
  from u have c: "leadsAfter (whatsappClick (statusLead ''a'' ''1'' New) ?ls) ! 1
                    = (?ls ! 1)\<lparr>status := Contacted\<rparr>"
    by blast
  have a': "(statusLead ''a'' ''1'' New)\<lparr>status := Closed\<rparr> = statusLead ''a'' ''1'' Closed"
    by (simp add: statusLead_def)
  show ?thesis unfolding a b c a' using h1 h2 h3 by simp
qed

end
